theory Spec2Isabelle
  imports Main "HOL-Library.Sublist" "HOL-Library.Multiset"
begin

section \<open>JavaScript values used by src/index.js\<close>

text \<open>
  Strings are lists of code units.  A value that may be \<^verbatim>\<open>undefined\<close> is an
  option.  JavaScript tests such values for truthiness: \<^verbatim>\<open>undefined\<close> and the
  empty string are falsy, every other string is truthy.
\<close>

definition truthy :: "string option \<Rightarrow> bool" where
  "truthy v = (case v of None \<Rightarrow> False | Some s \<Rightarrow> s \<noteq> [])"

text \<open>
  \<^verbatim>\<open>s.replace(pat, rep)\<close> with a string pattern: the first occurrence of
  \<^verbatim>\<open>pat\<close> in \<^verbatim>\<open>s\<close>, searched from the left, is replaced; a string without
  an occurrence is returned as it is.  (The replacement used in the source is the empty
  string, so no replacement pattern is involved.)
\<close>

fun js_replace :: "'a list \<Rightarrow> 'a list \<Rightarrow> 'a list \<Rightarrow> 'a list" where
  "js_replace pat rep [] = (if pat = [] then rep else [])"
| "js_replace pat rep (c # cs) =
     (if prefix pat (c # cs) then rep @ drop (length pat) (c # cs)
      else c # js_replace pat rep cs)"

text \<open>\<^verbatim>\<open>s.replace(/\\/g, '/')\<close>: every backslash becomes a slash.\<close>

definition backslash :: char where
  "backslash = CHR 0x5C"

definition slashes :: "string \<Rightarrow> string" where
  "slashes s = map (\<lambda>c. if c = backslash then CHR ''/'' else c) s"

text \<open>Template literals print a number in decimal.\<close>

fun digits_of_nat :: "nat \<Rightarrow> string" where
  "digits_of_nat n =
     (if n < 10 then [char_of (48 + n)]
      else digits_of_nat (n div 10) @ [char_of (48 + n mod 10)])"

declare digits_of_nat.simps [simp del]

definition string_of_int :: "int \<Rightarrow> string" where
  "string_of_int i = (if i < 0 then ''-'' @ digits_of_nat (nat (- i)) else digits_of_nat (nat i))"

section \<open>Configuration\<close>

text \<open>
  The merged configuration object (\<^verbatim>\<open>DEFAULTS\<close>, the env file, the constructor's
  argument), with the fields that \<^verbatim>\<open>start\<close>, \<^verbatim>\<open>fetchUploadedFiles\<close> and
  \<^verbatim>\<open>deleteFiles\<close> read; the credentials, the zone and the glob patterns only go to the
  SDK and to the glob library.  \<^verbatim>\<open>parallelCount\<close> is a count of workers.
  \<^verbatim>\<open>output\<close> (here \<open>output_opt\<close>) may be set to a falsy value.
\<close>

record config =
  debug :: bool
  cwd :: string
  base :: string
  output_opt :: "string option"
  bucket :: string
  overrides :: bool
  parallelCount :: nat

definition DEFAULTS :: "string \<Rightarrow> config" where
  "DEFAULTS process_cwd =
     \<lparr> debug = False, cwd = process_cwd, base = ''dist'',
       output_opt = Some ''qiniu-upload.json'', bucket = ''static'',
       overrides = False, parallelCount = 2 \<rparr>"

section \<open>Key mapping\<close>

text \<open>
  \<^verbatim>\<open>resolveBase\<close> (lines 79-81).  \<^verbatim>\<open>path.resolve\<close> belongs to Node, not to this
  repository; it is the parameter \<open>path_resolve\<close>.
\<close>

definition resolveBase :: "(string \<Rightarrow> string \<Rightarrow> string) \<Rightarrow> config \<Rightarrow> string" where
  "resolveBase path_resolve cfg = slashes (path_resolve (cwd cfg) (base cfg)) @ ''/''"

text \<open>The key computed in \<^verbatim>\<open>_createUploadTask\<close> (lines 229-230).\<close>

definition upload_key :: "(string \<Rightarrow> string \<Rightarrow> string) \<Rightarrow> config \<Rightarrow> string \<Rightarrow> string" where
  "upload_key path_resolve cfg file = js_replace (resolveBase path_resolve cfg) [] file"

text \<open>A plain resolver for concrete examples: the base below the working directory.\<close>

definition join_resolve :: "string \<Rightarrow> string \<Rightarrow> string" where
  "join_resolve c b = c @ ''/'' @ b"

section \<open>Callbacks written as \<^verbatim>\<open>function\<close> expressions\<close>

text \<open>
  The class body is strict code.  An arrow function keeps the \<^verbatim>\<open>this\<close> of the
  method it is written in; a \<^verbatim>\<open>function\<close> expression gets its \<^verbatim>\<open>this\<close> from
  the caller.  Node's \<^verbatim>\<open>fs.writeFile\<close> and the SDK's \<^verbatim>\<open>batch\<close> call their
  callback as a plain function, so there \<^verbatim>\<open>this\<close> is \<^verbatim>\<open>undefined\<close> (it is
  never the uploader), and reading a property of it raises a TypeError that nothing
  catches.  The callbacks below take their \<^verbatim>\<open>this\<close> as an argument.
\<close>

datatype js_this = ThisUndefined | ThisUploader

datatype js_error = TypeError

text \<open>
  \<^verbatim>\<open>log\<close> and \<^verbatim>\<open>error\<close> (lines 133-149) both go through \<^verbatim>\<open>_debugLog\<close>: the
  line reaches the console only when \<^verbatim>\<open>debug\<close> is set.  The console is a list of
  lines; a logged object is kept as it is.  What a callback does is the lines it has
  put on the console and the error it has raised, if any.
\<close>

datatype 'a console_line = Line string | Dump 'a

type_synonym 'a callback_result = "'a console_line list \<times> js_error option"

definition debugLog :: "config \<Rightarrow> string \<Rightarrow> 'a console_line list" where
  "debugLog cfg line = (if debug cfg then [Line line] else [])"

text \<open>A call \<^verbatim>\<open>this.log(...)\<close> or \<^verbatim>\<open>this.error(...)\<close> that would log \<open>ls\<close>.\<close>

definition call_on :: "js_this \<Rightarrow> 'a console_line list \<Rightarrow> 'a callback_result" where
  "call_on this ls =
     (case this of ThisUndefined \<Rightarrow> ([], Some TypeError) | ThisUploader \<Rightarrow> (ls, None))"

section \<open>Upload tasks\<close>

text \<open>\<^verbatim>\<open>buildUploadToken\<close> (lines 101-108): the policy that the SDK signs.\<close>

record put_policy =
  scope :: string
  expires :: nat
  insertOnly :: nat

definition buildUploadToken :: "config \<Rightarrow> string \<Rightarrow> put_policy" where
  "buildUploadToken cfg k =
     \<lparr> scope = bucket cfg @ '':'' @ k, expires = 7200,
       insertOnly = (if overrides cfg then 0 else 1) \<rparr>"

text \<open>
  The object literals of lines 203-213 and 240-260.  \<^verbatim>\<open>{file, key}\<close> resolves the
  task's promise, \<^verbatim>\<open>{file, key, msg, ...}\<close> rejects it (the other fields of a
  rejection are only read for logging).  A call of \<^verbatim>\<open>putFile(token, key, file, ...)\<close>
  carries the same two fields and the token.
\<close>

record entry =
  "file" :: string
  key :: string

record success_entry = entry +
  skipped :: bool

record fail_entry = entry +
  msg :: string

record put_call = entry +
  token :: put_policy

text \<open>
  What the SDK passes to the callback of \<^verbatim>\<open>putFile\<close>: an error with its message, or
  the response's status code and, when the body has one, its \<^verbatim>\<open>error\<close> field.
\<close>

datatype put_reply = PutErr string | PutInfo int "string option"

text \<open>\<^verbatim>\<open>_createUploadTask\<close> (lines 226-264): the call it issues, and its callback.\<close>

definition createUploadTask :: "(string \<Rightarrow> string \<Rightarrow> string) \<Rightarrow> config \<Rightarrow> string \<Rightarrow> put_call" where
  "createUploadTask path_resolve cfg f =
     (let k = upload_key path_resolve cfg f
      in \<lparr> file = f, key = k, token = buildUploadToken cfg k \<rparr>)"

definition putFile_callback :: "string \<Rightarrow> string \<Rightarrow> put_reply \<Rightarrow> fail_entry + entry" where
  "putFile_callback f k reply =
     (case reply of
        PutErr message \<Rightarrow> Inl \<lparr> file = f, key = k, msg = message \<rparr>
      | PutInfo statusCode data_error \<Rightarrow>
          if statusCode = 200 then Inr \<lparr> file = f, key = k \<rparr>
          else Inl \<lparr> file = f, key = k,
                     msg = (case data_error of
                              None \<Rightarrow> ''code: '' @ string_of_int statusCode
                            | Some e \<Rightarrow> if e \<noteq> [] then e
                                        else ''code: '' @ string_of_int statusCode) \<rparr>)"

section \<open>The worker pool of \<^verbatim>\<open>start\<close>\<close>

text \<open>
  The local variables of \<^verbatim>\<open>start\<close> (lines 153-164), and what the method has done to
  the outside: the \<^verbatim>\<open>putFile\<close> calls issued so far (\<open>put_calls\<close>), those whose
  callback has not fired yet (\<open>inflight\<close>), the number of settled chains whose last
  \<^verbatim>\<open>.then(run)\<close> is still queued (\<open>pending_runs\<close>), whether the returned promise is
  resolved, and the \<^verbatim>\<open>fs.writeFile\<close> calls with path and serialised value.
  Console output of \<^verbatim>\<open>start\<close> changes none of these and is left out.
\<close>

record run_state =
  targetFiles :: "string list"
  ended :: "nat list"
  results_success :: "success_entry list"
  results_fail :: "fail_entry list"
  stats_total :: int
  stats_uploading :: int
  stats_success :: int
  stats_fail :: int
  put_calls :: "put_call list"
  inflight :: "put_call list"
  pending_runs :: nat
  resolved :: bool
  written :: "(string \<times> success_entry list \<times> fail_entry list) list"

definition init_state :: "string list \<Rightarrow> run_state" where
  "init_state files =
     \<lparr> targetFiles = files, ended = [], results_success = [], results_fail = [],
       stats_total = int (length files), stats_uploading = 0, stats_success = 0,
       stats_fail = 0, put_calls = [], inflight = [], pending_runs = 0,
       resolved = False, written = [] \<rparr>"

text \<open>\<^verbatim>\<open>end\<close> (lines 165-174): the report is written when \<^verbatim>\<open>output\<close> is truthy.\<close>

definition end_fn :: "(string \<Rightarrow> string \<Rightarrow> string) \<Rightarrow> config \<Rightarrow> run_state \<Rightarrow> run_state" where
  "end_fn path_resolve cfg s =
     (case output_opt cfg of
        None \<Rightarrow> s
      | Some out \<Rightarrow>
          if out = [] then s
          else s\<lparr>written := written s @
                  [(path_resolve (cwd cfg) out, results_success s, results_fail s)]\<rparr>)"

text \<open>
  The callback given to \<^verbatim>\<open>fs.writeFile\<close> (lines 167-171), a \<^verbatim>\<open>function\<close>
  expression; \<open>err\<close> is the stack of the error, if there is one.
\<close>

definition writeFile_callback :: "js_this \<Rightarrow> config \<Rightarrow> string option \<Rightarrow> unit callback_result" where
  "writeFile_callback this cfg err =
     (case err of
        None \<Rightarrow> ([], None)
      | Some stack \<Rightarrow>
          call_on this (debugLog cfg (''error occured when save upload results. '' @ stack)))"

definition writeFile_done :: "config \<Rightarrow> string option \<Rightarrow> unit callback_result" where
  "writeFile_done cfg err = writeFile_callback ThisUndefined cfg err"

text \<open>\<^verbatim>\<open>Array.prototype.pop\<close>: the last element, or \<^verbatim>\<open>undefined\<close> on an empty array.\<close>

definition js_pop :: "'a list \<Rightarrow> 'a option \<times> 'a list" where
  "js_pop xs = (if xs = [] then (None, []) else (Some (last xs), butlast xs))"

text \<open>\<^verbatim>\<open>run\<close> (lines 186-217), up to the point where the upload is issued.\<close>

definition worker_end :: "(string \<Rightarrow> string \<Rightarrow> string) \<Rightarrow> config \<Rightarrow> run_state \<Rightarrow> run_state" where
  "worker_end path_resolve cfg s =
     (let s' = s\<lparr>ended := ended s @ [1]\<rparr>
      in if length (ended s') = parallelCount cfg
         then (end_fn path_resolve cfg s')\<lparr>resolved := True\<rparr>
         else s')"

definition run :: "(string \<Rightarrow> string \<Rightarrow> string) \<Rightarrow> config \<Rightarrow> run_state \<Rightarrow> run_state" where
  "run path_resolve cfg s =
     (case js_pop (targetFiles s) of
        (popped, rest) \<Rightarrow>
          let s1 = s\<lparr>targetFiles := rest\<rparr>
          in if \<not> truthy popped then worker_end path_resolve cfg s1
             else (case popped of
                     None \<Rightarrow> worker_end path_resolve cfg s1
                   | Some f \<Rightarrow>
                       let c = createUploadTask path_resolve cfg f
                       in s1\<lparr>stats_uploading := stats_uploading s1 + 1,
                             put_calls := put_calls s1 @ [c],
                             inflight := inflight s1 @ [c]\<rparr>))"

text \<open>The two handlers of lines 200-216, for the file \<open>f\<close> of the closure.\<close>

definition on_fulfilled :: "string \<Rightarrow> entry \<Rightarrow> run_state \<Rightarrow> run_state" where
  "on_fulfilled f res s =
     s\<lparr>stats_uploading := stats_uploading s - 1,
       stats_success := stats_success s + 1,
       results_success := results_success s @ [\<lparr> file = f, key = key res, skipped = False \<rparr>]\<rparr>"

definition on_rejected :: "string \<Rightarrow> fail_entry \<Rightarrow> run_state \<Rightarrow> run_state" where
  "on_rejected f rej s =
     s\<lparr>stats_uploading := stats_uploading s - 1,
       stats_fail := stats_fail s + 1,
       results_fail := results_fail s @ [\<lparr> file = f, key = key rej, msg = msg rej \<rparr>]\<rparr>"

definition settle :: "put_call \<Rightarrow> put_reply \<Rightarrow> run_state \<Rightarrow> run_state" where
  "settle c reply s =
     (case putFile_callback (file c) (key c) reply of
        Inr res \<Rightarrow> on_fulfilled (file c) res s
      | Inl rej \<Rightarrow> on_rejected (file c) rej s)"

text \<open>
  The event loop.  \<open>Settle f reply\<close>: the callback of the pending upload of \<open>f\<close> fires
  with \<open>reply\<close> and the handler for it runs.  \<open>Resume\<close>: a queued \<^verbatim>\<open>.then(run)\<close>
  runs.  The handlers run as promise jobs, and the jobs of different chains may
  interleave, so the two are separate events and every order of them is a schedule.  A
  schedule is a list of events; an event that is not possible in a state makes the
  schedule impossible (\<open>None\<close>).
\<close>

datatype event = Settle string put_reply | Resume

fun step :: "(string \<Rightarrow> string \<Rightarrow> string) \<Rightarrow> config \<Rightarrow> run_state \<Rightarrow> event \<Rightarrow> run_state option" where
  "step path_resolve cfg s (Settle f reply) =
     (case find (\<lambda>c. file c = f) (inflight s) of
        None \<Rightarrow> None
      | Some c \<Rightarrow>
          Some ((settle c reply (s\<lparr>inflight := remove1 c (inflight s)\<rparr>))
                  \<lparr>pending_runs := pending_runs s + 1\<rparr>))"
| "step path_resolve cfg s Resume =
     (if pending_runs s = 0 then None
      else Some (run path_resolve cfg (s\<lparr>pending_runs := pending_runs s - 1\<rparr>)))"

fun exec :: "(string \<Rightarrow> string \<Rightarrow> string) \<Rightarrow> config \<Rightarrow> run_state \<Rightarrow> event list \<Rightarrow> run_state option" where
  "exec path_resolve cfg s [] = Some s"
| "exec path_resolve cfg s (e # es) =
     (case step path_resolve cfg s e of
        None \<Rightarrow> None
      | Some s' \<Rightarrow> exec path_resolve cfg s' es)"

text \<open>
  \<^verbatim>\<open>start\<close> (lines 152-224) on the files that \<^verbatim>\<open>getWaitingUploadFiles\<close> has
  enumerated: \<^verbatim>\<open>while (parallelCount--) run()\<close>.  \<open>start_loop k\<close> is the state after
  \<open>k\<close> rounds of that loop.
\<close>

fun start_loop :: "(string \<Rightarrow> string \<Rightarrow> string) \<Rightarrow> config \<Rightarrow> nat \<Rightarrow> run_state \<Rightarrow> run_state" where
  "start_loop path_resolve cfg 0 s = s"
| "start_loop path_resolve cfg (Suc n) s = start_loop path_resolve cfg n (run path_resolve cfg s)"

definition start :: "(string \<Rightarrow> string \<Rightarrow> string) \<Rightarrow> config \<Rightarrow> string list \<Rightarrow> run_state" where
  "start path_resolve cfg files = start_loop path_resolve cfg (parallelCount cfg) (init_state files)"

text \<open>The replies of a schedule, with the file each belongs to; a state with nothing pending.\<close>

fun settles :: "event list \<Rightarrow> (string \<times> put_reply) list" where
  "settles [] = []"
| "settles (Settle f reply # es) = (f, reply) # settles es"
| "settles (Resume # es) = settles es"

definition finished :: "run_state \<Rightarrow> bool" where
  "finished s = (inflight s = [] \<and> pending_runs s = 0)"

definition put_ok :: "put_reply \<Rightarrow> bool" where
  "put_ok reply = (case reply of PutErr _ \<Rightarrow> False | PutInfo statusCode _ \<Rightarrow> statusCode = 200)"

text \<open>The entries that the handlers of \<^verbatim>\<open>start\<close> push for a file and its reply.\<close>

definition fail_of :: "(string \<Rightarrow> string \<Rightarrow> string) \<Rightarrow> config \<Rightarrow> string \<times> put_reply \<Rightarrow> fail_entry" where
  "fail_of path_resolve cfg fr =
     \<lparr> file = fst fr, key = upload_key path_resolve cfg (fst fr),
       msg = (case snd fr of
                PutErr message \<Rightarrow> message
              | PutInfo statusCode data_error \<Rightarrow>
                  if truthy data_error then (case data_error of Some e \<Rightarrow> e | None \<Rightarrow> [])
                  else ''code: '' @ string_of_int statusCode) \<rparr>"

definition success_of :: "(string \<Rightarrow> string \<Rightarrow> string) \<Rightarrow> config \<Rightarrow> string \<times> put_reply \<Rightarrow> success_entry" where
  "success_of path_resolve cfg fr =
     \<lparr> file = fst fr, key = upload_key path_resolve cfg (fst fr), skipped = False \<rparr>"

section \<open>Listing and deleting remote files\<close>

text \<open>
  \<^verbatim>\<open>_fetch\<close> (lines 298-312).  The SDK's \<^verbatim>\<open>listPrefix\<close> is the parameter
  \<open>listPrefix\<close>: for the options of a call it gives what the callback receives, an
  error or the status code and the body.  Of a body, the keys of its items and its marker
  are read.  The result is how the promise is settled: once \<^verbatim>\<open>reject(err)\<close> has been
  called, what the rest of the callback does to the promise has no effect, and a
  rejection with \<^verbatim>\<open>new Error(statusCode)\<close> is given by its message.
\<close>

record list_call =
  list_bucket :: string
  list_limit :: nat
  list_prefix :: string
  list_marker :: string

record list_body =
  items :: "string list"
  marker :: "string option"

datatype list_reply = ListErr string | ListInfo int list_body

definition fetch :: "(list_call \<Rightarrow> list_reply) \<Rightarrow> list_call \<Rightarrow> string + list_body" where
  "fetch listPrefix call =
     (case listPrefix call of
        ListErr e \<Rightarrow> Inl e
      | ListInfo statusCode respBody \<Rightarrow>
          if statusCode = 200 then Inr respBody else Inl (string_of_int statusCode))"

text \<open>
  The inner \<^verbatim>\<open>run\<close> of \<^verbatim>\<open>fetchUploadedFiles\<close> (lines 271-285), with the calls issued
  and the keys pushed to \<^verbatim>\<open>files\<close> so far (\<^verbatim>\<open>pageIndex\<close> is only logged).  It ends
  when the outer promise is settled; a remote that never returns a falsy marker keeps it
  running, which is \<open>None\<close>.
\<close>

datatype settled = Resolved | Rejected string

definition list_call_at :: "config \<Rightarrow> nat \<Rightarrow> string \<Rightarrow> string \<Rightarrow> list_call" where
  "list_call_at cfg limit pfx m =
     \<lparr> list_bucket = bucket cfg, list_limit = limit, list_prefix = pfx, list_marker = m \<rparr>"

partial_function (option) fetch_loop ::
  "(list_call \<Rightarrow> list_reply) \<Rightarrow> config \<Rightarrow> nat \<Rightarrow> string \<Rightarrow> string \<Rightarrow> list_call list \<Rightarrow> string list
     \<Rightarrow> (list_call list \<times> string list \<times> settled) option" where
  "fetch_loop listPrefix cfg limit pfx m calls files =
     (case fetch listPrefix (list_call_at cfg limit pfx m) of
        Inl e \<Rightarrow> Some (calls @ [list_call_at cfg limit pfx m], files, Rejected e)
      | Inr respBody \<Rightarrow>
          (case marker respBody of
             None \<Rightarrow>
               Some (calls @ [list_call_at cfg limit pfx m], files @ items respBody, Resolved)
           | Some m' \<Rightarrow>
               if m' = []
               then Some (calls @ [list_call_at cfg limit pfx m], files @ items respBody, Resolved)
               else fetch_loop listPrefix cfg limit pfx m'
                      (calls @ [list_call_at cfg limit pfx m]) (files @ items respBody)))"

text \<open>
  \<^verbatim>\<open>deleteFiles\<close> (lines 314-343).  The SDK's \<^verbatim>\<open>batch\<close> is the parameter \<open>batch\<close>:
  for the operations of a call it gives what the callback receives.  An item of a
  response body has a code and possibly a \<^verbatim>\<open>data\<close> object with an \<^verbatim>\<open>error\<close> field.
\<close>

record delete_op =
  op_bucket :: string
  op_key :: string

definition deleteOp :: "string \<Rightarrow> string \<Rightarrow> delete_op" where
  "deleteOp b k = \<lparr> op_bucket = b, op_key = k \<rparr>"

datatype item_data = NoData | Data "string option"

record batch_item =
  code :: int
  data :: item_data

datatype batch_reply = BatchErr string | BatchInfo int "batch_item list"

definition tab :: char where
  "tab = CHR 0x09"

text \<open>\<^verbatim>\<open>parseInt(statusCode / 100)\<close> on an integer status code cuts the fraction off.\<close>

definition parseInt_hundredth :: "int \<Rightarrow> int" where
  "parseInt_hundredth statusCode =
     (if statusCode < 0 then - ((- statusCode) div 100) else statusCode div 100)"

fun log_items :: "batch_item list \<Rightarrow> (batch_item list) callback_result" where
  "log_items [] = ([], None)"
| "log_items (item # rest) =
     (if code item = 200
      then (case log_items rest of
              (ls, e) \<Rightarrow> (Line (string_of_int (code item) @ [tab] @ ''success'') # ls, e))
      else (case data item of
              NoData \<Rightarrow> ([], Some TypeError)
            | Data err \<Rightarrow>
                (case log_items rest of
                   (ls, e) \<Rightarrow>
                     (Line (string_of_int (code item) @ [tab] @
                            (case err of None \<Rightarrow> ''undefined'' | Some e' \<Rightarrow> e')) # ls, e))))"

text \<open>
  The callback given to \<^verbatim>\<open>batch\<close> (lines 320-339), a \<^verbatim>\<open>function\<close> expression, up
  to the call of \<^verbatim>\<open>del()\<close> at its end, which an error raised before it skips.
\<close>

definition batch_callback :: "js_this \<Rightarrow> config \<Rightarrow> batch_reply \<Rightarrow> (batch_item list) callback_result" where
  "batch_callback this cfg reply =
     (case reply of
        BatchErr e \<Rightarrow> call_on this (debugLog cfg e)
      | BatchInfo statusCode respBody \<Rightarrow>
          if parseInt_hundredth statusCode = 2 then log_items respBody
          else ([Line ''undefined'', Dump respBody], None))"

record delete_run =
  submitted :: "delete_op list list"
  console :: "(batch_item list) console_line list"
  uncaught :: "js_error option"

function del :: "config \<Rightarrow> (delete_op list \<Rightarrow> batch_reply) \<Rightarrow> string list \<Rightarrow> delete_run" where
  "del cfg batch files =
     (if length (map (deleteOp (bucket cfg)) (take 100 files)) = 0
      then \<lparr> submitted = [], console = [], uncaught = None \<rparr>
      else (case batch_callback ThisUndefined cfg
                   (batch (map (deleteOp (bucket cfg)) (take 100 files))) of
              (ls, Some e) \<Rightarrow>
                \<lparr> submitted = [map (deleteOp (bucket cfg)) (take 100 files)],
                  console = ls, uncaught = Some e \<rparr>
            | (ls, None) \<Rightarrow>
                (let r = del cfg batch (drop 100 files)
                 in r\<lparr>submitted := map (deleteOp (bucket cfg)) (take 100 files) # submitted r,
                       console := ls @ console r\<rparr>)))"
  by pat_completeness auto
termination
  by (relation "measure (\<lambda>(cfg, batch, files). length files)") auto

declare del.simps [simp del]

definition deleteFiles :: "config \<Rightarrow> (delete_op list \<Rightarrow> batch_reply) \<Rightarrow> string list \<Rightarrow> delete_run" where
  "deleteFiles cfg batch files = del cfg batch files"

text \<open>
  \<^verbatim>\<open>fetchUploadedFiles\<close> (lines 266-296): the value the method returns to its caller,
  and what it goes on to do (\<open>None\<close> when the listing never ends).  The promise it creates
  is not returned; \<^verbatim>\<open>deleteFiles\<close> runs when that promise is resolved.
\<close>

record fetch_args =
  arg_limit :: "nat option"
  arg_prefix :: "string option"

datatype js_value = Undefined | PromiseObject

record fetch_effects =
  listed :: "list_call list"
  deletion :: "delete_run option"

definition fetchUploadedFiles ::
  "(list_call \<Rightarrow> list_reply) \<Rightarrow> (delete_op list \<Rightarrow> batch_reply) \<Rightarrow> config \<Rightarrow> fetch_args
     \<Rightarrow> js_value \<times> fetch_effects option" where
  "fetchUploadedFiles listPrefix batch cfg args =
     (let limit = (case arg_limit args of None \<Rightarrow> 50 | Some l \<Rightarrow> l)
      in case arg_prefix args of
           None \<Rightarrow> (Undefined, Some \<lparr> listed = [], deletion = None \<rparr>)
         | Some pfx \<Rightarrow>
             if pfx = [] then (Undefined, Some \<lparr> listed = [], deletion = None \<rparr>)
             else (Undefined,
                   case fetch_loop listPrefix cfg limit pfx [] [] [] of
                     None \<Rightarrow> None
                   | Some (calls, files, Resolved) \<Rightarrow>
                       Some \<lparr> listed = calls, deletion = Some (deleteFiles cfg batch files) \<rparr>
                   | Some (calls, files, Rejected e) \<Rightarrow>
                       Some \<lparr> listed = calls, deletion = None \<rparr>))"

text \<open>
  A remote that serves the pages \<open>ps\<close> in order, starting from the marker \<open>m\<close>: every
  page but the last returns a truthy marker, under which the next page is served, and
  the last page returns a falsy one.
\<close>

fun serves :: "(list_call \<Rightarrow> list_reply) \<Rightarrow> config \<Rightarrow> nat \<Rightarrow> string \<Rightarrow> string \<Rightarrow> list_body list \<Rightarrow> bool" where
  "serves listPrefix cfg limit pfx m [] = False"
| "serves listPrefix cfg limit pfx m (p # ps) =
     (listPrefix (list_call_at cfg limit pfx m) = ListInfo 200 p
      \<and> (case marker p of
            None \<Rightarrow> ps = []
          | Some m' \<Rightarrow> if m' = [] then ps = [] else serves listPrefix cfg limit pfx m' ps))"

fun markers_of :: "string \<Rightarrow> list_body list \<Rightarrow> string list" where
  "markers_of m [] = []"
| "markers_of m (p # ps) = m # markers_of (case marker p of None \<Rightarrow> [] | Some m' \<Rightarrow> m') ps"

section \<open>Auxiliary notions for the proofs\<close>

text \<open>
  The chains of a run: every worker is uploading, waiting for its next round of
  \<^verbatim>\<open>run\<close>, or has ended.  The report is what \<^verbatim>\<open>end\<close> writes for a state.
\<close>

definition chains :: "run_state \<Rightarrow> nat" where
  "chains s = length (inflight s) + pending_runs s + length (ended s)"

definition report :: "(string \<Rightarrow> string \<Rightarrow> string) \<Rightarrow> config \<Rightarrow> run_state \<Rightarrow> (string \<times> success_entry list \<times> fail_entry list) list" where
  "report path_resolve cfg s =
     (case output_opt cfg of
        None \<Rightarrow> []
      | Some out \<Rightarrow>
          if out = [] then []
          else [(path_resolve (cwd cfg) out, results_success s, results_fail s)])"

definition inv_pool :: "(string \<Rightarrow> string \<Rightarrow> string) \<Rightarrow> config \<Rightarrow> string list \<Rightarrow> run_state \<Rightarrow> bool" where
  "inv_pool path_resolve cfg files s =
     (stats_uploading s = int (length (inflight s))
      \<and> stats_success s = int (length (results_success s))
      \<and> stats_fail s = int (length (results_fail s))
      \<and> stats_total s = int (length files)
      \<and> chains s \<le> parallelCount cfg
      \<and> (resolved s = (length (ended s) = parallelCount cfg \<and> 0 < parallelCount cfg))
      \<and> written s = (if resolved s then report path_resolve cfg s else [])
      \<and> (\<forall>c\<in>set (inflight s). c = createUploadTask path_resolve cfg (file c))
      \<and> mset (map file (results_success s)) + mset (map file (results_fail s))
          + mset (map file (inflight s)) = mset (map file (put_calls s))
      \<and> mset (map file (put_calls s)) + mset (targetFiles s) \<subseteq># mset files)"

definition inv_files :: "string list \<Rightarrow> run_state \<Rightarrow> bool" where
  "inv_files files s =
     ([] \<notin> set (targetFiles s)
      \<and> mset (map file (put_calls s)) + mset (targetFiles s) = mset files
      \<and> (ended s \<noteq> [] \<longrightarrow> targetFiles s = []))"

definition mu :: "run_state \<Rightarrow> nat" where
  "mu s = 2 * length (targetFiles s) + 2 * length (inflight s) + pending_runs s"

text \<open>A callback that comes back instead of raising.\<close>

definition returns :: "'a callback_result \<Rightarrow> bool" where
  "returns r = (snd r = None)"

text \<open>The sizes of consecutive batches of at most 100 that \<open>n\<close> keys fall into.\<close>

fun batch_sizes :: "nat \<Rightarrow> nat list" where
  "batch_sizes n = (if n = 0 then [] else min 100 n # batch_sizes (n - 100))"

declare batch_sizes.simps [simp del]

section \<open>Concrete inputs\<close>

text \<open>
  The default configuration in the working directory \<open>/x\<close>; three files below
  \<open>/x/dist\<close>; a schedule in which the upload of \<open>c.js\<close> ends with status 599 and
  the other two with status 200; and the state that schedule leads to.
\<close>

definition demo_cfg :: config where
  "demo_cfg = DEFAULTS ''/x''"

definition demo_files :: "string list" where
  "demo_files = [''/x/dist/a.js'', ''/x/dist/b.js'', ''/x/dist/c.js'']"

definition demo_schedule :: "event list" where
  "demo_schedule =
     [Settle ''/x/dist/c.js'' (PutInfo 599 None), Resume,
      Settle ''/x/dist/b.js'' (PutInfo 200 None), Resume,
      Settle ''/x/dist/a.js'' (PutInfo 200 None), Resume]"

definition demo_final :: run_state where
  "demo_final =
     \<lparr> targetFiles = [], ended = [1, 1],
       results_success =
         [\<lparr> file = ''/x/dist/b.js'', key = ''b.js'', skipped = False \<rparr>,
          \<lparr> file = ''/x/dist/a.js'', key = ''a.js'', skipped = False \<rparr>],
       results_fail =
         [\<lparr> file = ''/x/dist/c.js'', key = ''c.js'', msg = ''code: 599'' \<rparr>],
       stats_total = 3, stats_uploading = 0, stats_success = 2, stats_fail = 1,
       put_calls =
         [\<lparr> file = ''/x/dist/c.js'', key = ''c.js'',
             token = \<lparr> scope = ''static:c.js'', expires = 7200, insertOnly = 1 \<rparr> \<rparr>,
          \<lparr> file = ''/x/dist/b.js'', key = ''b.js'',
             token = \<lparr> scope = ''static:b.js'', expires = 7200, insertOnly = 1 \<rparr> \<rparr>,
          \<lparr> file = ''/x/dist/a.js'', key = ''a.js'',
             token = \<lparr> scope = ''static:a.js'', expires = 7200, insertOnly = 1 \<rparr> \<rparr>],
       inflight = [], pending_runs = 0, resolved = True,
       written =
         [(''/x/qiniu-upload.json'',
           [\<lparr> file = ''/x/dist/b.js'', key = ''b.js'', skipped = False \<rparr>,
            \<lparr> file = ''/x/dist/a.js'', key = ''a.js'', skipped = False \<rparr>],
           [\<lparr> file = ''/x/dist/c.js'', key = ''c.js'', msg = ''code: 599'' \<rparr>])] \<rparr>"

text \<open>
  A remote listing of three pages with the markers \<open>m1\<close>, \<open>m2\<close> and the empty
  string; a remote that deletes every key of a batch; and \<open>n\<close> keys.
\<close>

definition demo_pages :: "list_body list" where
  "demo_pages =
     [\<lparr> items = [''static/a.js'', ''static/b.js''], marker = Some ''m1'' \<rparr>,
      \<lparr> items = [''static/c.js''], marker = Some ''m2'' \<rparr>,
      \<lparr> items = [''static/d.js''], marker = Some '''' \<rparr>]"

definition demo_listPrefix :: "list_call \<Rightarrow> list_reply" where
  "demo_listPrefix call =
     (if list_marker call = [] then ListInfo 200 (demo_pages ! 0)
      else if list_marker call = ''m1'' then ListInfo 200 (demo_pages ! 1)
      else if list_marker call = ''m2'' then ListInfo 200 (demo_pages ! 2)
      else ListErr ''no such marker'')"

definition demo_batch :: "delete_op list \<Rightarrow> batch_reply" where
  "demo_batch ops = BatchInfo 200 (map (\<lambda>_. \<lparr> code = 200, data = NoData \<rparr>) ops)"

definition demo_keys :: "nat \<Rightarrow> string list" where
  "demo_keys n = map digits_of_nat [0..<n]"

section \<open>Properties of the key mapping\<close>

lemma js_replace_prefix: "js_replace pat rep (pat @ rest) = rep @ rest"
proof (cases "pat @ rest")
  case Nil
  then show ?thesis by simp
next
  case (Cons a list)
  have "prefix pat (a # list)" unfolding Cons [symmetric] by simp
  then have "js_replace pat rep (a # list) = rep @ drop (length pat) (a # list)" by simp
  then show ?thesis unfolding Cons [symmetric] by simp
qed

lemma js_replace_absent: "\<not> sublist pat s \<Longrightarrow> js_replace pat rep s = s"
  by (induction s) (auto simp: sublist_Cons_right)

lemma slashes_id: "backslash \<notin> set s \<Longrightarrow> slashes s = s"
  by (induction s) (auto simp: slashes_def)

text \<open>
  C3, as the source has it.  For every resolver and configuration: when the resolved base
  directory \<open>d\<close> has no backslash, the path \<open>d/a/b.js\<close> is mapped to \<open>a/b.js\<close>; in
  general, with \<open>b/\<close> the resolved base with its backslashes turned into slashes and
  the separator appended, a path \<open>b/rest\<close> is mapped to \<open>rest\<close>; and mapping a key
  again changes nothing when the key does not contain \<open>b/\<close>.
\<close>

theorem upload_key_prefix_correct:
  "(backslash \<notin> set (pr (cwd cfg) (base cfg)) \<longrightarrow>
      upload_key pr cfg (pr (cwd cfg) (base cfg) @ ''/a/b.js'') = ''a/b.js'')
   \<and> upload_key pr cfg (resolveBase pr cfg @ rest) = rest
   \<and> (\<not> sublist (resolveBase pr cfg) (upload_key pr cfg path) \<longrightarrow>
        upload_key pr cfg (upload_key pr cfg path) = upload_key pr cfg path)"
proof -
  have a: "upload_key pr cfg (resolveBase pr cfg @ r) = r" for r
    unfolding upload_key_def using js_replace_prefix [of "resolveBase pr cfg" "[]" r] by simp
  have b: "upload_key pr cfg (pr (cwd cfg) (base cfg) @ ''/a/b.js'') = ''a/b.js''"
    if nb: "backslash \<notin> set (pr (cwd cfg) (base cfg))"
  proof -
    from nb have "pr (cwd cfg) (base cfg) @ ''/a/b.js'' = resolveBase pr cfg @ ''a/b.js''"
      by (simp add: resolveBase_def slashes_id)
    then show ?thesis using a [of "''a/b.js''"] by (simp only:)
  qed
  have c: "\<not> sublist (resolveBase pr cfg) k \<Longrightarrow> upload_key pr cfg k = k" for k
    unfolding upload_key_def by (rule js_replace_absent)
  from a b c show ?thesis by blast
qed

text \<open>
  C3 as stated fails in two places.  The mapping is not idempotent: with the base
  \<open>/x/dist\<close>, the file \<open>/x/dist/static/x/dist/c.js\<close> has the key
  \<open>static/x/dist/c.js\<close>, and mapping that key once more gives \<open>staticc.js\<close>.  And it
  is not prefix-correct for every base: a base directory with a backslash in its name is
  searched for in its slash form, which the path \<open>base/a/b.js\<close> does not contain, so
  the path is its own key.
\<close>

theorem upload_key_counterexamples:
  "upload_key join_resolve (DEFAULTS ''/x'')
     (upload_key join_resolve (DEFAULTS ''/x'') ''/x/dist/static/x/dist/c.js'')
   \<noteq> upload_key join_resolve (DEFAULTS ''/x'') ''/x/dist/static/x/dist/c.js''
   \<and> upload_key join_resolve ((DEFAULTS ''/x'')\<lparr>base := ''a'' @ [backslash] @ ''b''\<rparr>)
         (join_resolve ''/x'' (''a'' @ [backslash] @ ''b'') @ ''/a/b.js'')
       \<noteq> ''a/b.js''"
  by (simp add: upload_key_def resolveBase_def join_resolve_def DEFAULTS_def slashes_def backslash_def)

text \<open>
  The base \<open>/x/dist\<close> has no backslash, and the key of \<open>/x/dist/a/b.js\<close> does not
  contain the base.
\<close>

theorem upload_key_prefix_correct_witness:
  "backslash \<notin> set (join_resolve (cwd (DEFAULTS ''/x'')) (base (DEFAULTS ''/x'')))
   \<and> upload_key join_resolve (DEFAULTS ''/x'') ''/x/dist/a/b.js'' = ''a/b.js''
   \<and> \<not> sublist (resolveBase join_resolve (DEFAULTS ''/x''))
        (upload_key join_resolve (DEFAULTS ''/x'') ''/x/dist/a/b.js'')
   \<and> upload_key join_resolve (DEFAULTS ''/x'')
        (upload_key join_resolve (DEFAULTS ''/x'') ''/x/dist/a/b.js'') = ''a/b.js''"
  using upload_key_prefix_correct [of join_resolve "DEFAULTS ''/x''" "''a/b.js''" "''/x/dist/a/b.js''"]
  by (simp add: upload_key_def resolveBase_def join_resolve_def DEFAULTS_def slashes_def backslash_def sublist_code)

section \<open>The worker pool: invariants\<close>

lemma worker_end_fields:
  "targetFiles (worker_end pr cfg s) = targetFiles s"
  "ended (worker_end pr cfg s) = ended s @ [1]"
  "results_success (worker_end pr cfg s) = results_success s"
  "results_fail (worker_end pr cfg s) = results_fail s"
  "stats_total (worker_end pr cfg s) = stats_total s"
  "stats_uploading (worker_end pr cfg s) = stats_uploading s"
  "stats_success (worker_end pr cfg s) = stats_success s"
  "stats_fail (worker_end pr cfg s) = stats_fail s"
  "put_calls (worker_end pr cfg s) = put_calls s"
  "inflight (worker_end pr cfg s) = inflight s"
  "pending_runs (worker_end pr cfg s) = pending_runs s"
  "resolved (worker_end pr cfg s) = (resolved s \<or> Suc (length (ended s)) = parallelCount cfg)"
  "written (worker_end pr cfg s) =
     (if Suc (length (ended s)) = parallelCount cfg then written s @ report pr cfg s else written s)"
  by (simp_all add: worker_end_def end_fn_def report_def Let_def split: option.split)

lemma run_cases:
  obtains (Empty) "targetFiles s = []" "run pr cfg s = worker_end pr cfg s"
  | (Falsy) xs where "targetFiles s = xs @ [[]]"
      "run pr cfg s = worker_end pr cfg (s\<lparr>targetFiles := xs\<rparr>)"
  | (File) xs f where "targetFiles s = xs @ [f]" "f \<noteq> []"
      "run pr cfg s = s\<lparr>targetFiles := xs, stats_uploading := stats_uploading s + 1,
          put_calls := put_calls s @ [createUploadTask pr cfg f],
          inflight := inflight s @ [createUploadTask pr cfg f]\<rparr>"
proof (cases "targetFiles s" rule: rev_cases)
  case Nil
  then have e: "s\<lparr>targetFiles := []\<rparr> = s" by simp
  from Nil have "run pr cfg s = worker_end pr cfg (s\<lparr>targetFiles := []\<rparr>)"
    by (simp add: run_def js_pop_def truthy_def)
  then have "run pr cfg s = worker_end pr cfg s" by (simp only: e)
  with Nil show ?thesis by (rule Empty)
next
  case (snoc xs f)
  show ?thesis
  proof (cases "f = []")
    case True
    with snoc have "run pr cfg s = worker_end pr cfg (s\<lparr>targetFiles := xs\<rparr>)"
      by (simp add: run_def js_pop_def truthy_def)
    with snoc True show ?thesis using Falsy by simp
  next
    case False
    with snoc have "run pr cfg s = s\<lparr>targetFiles := xs, stats_uploading := stats_uploading s + 1,
          put_calls := put_calls s @ [createUploadTask pr cfg f],
          inflight := inflight s @ [createUploadTask pr cfg f]\<rparr>"
      by (simp add: run_def js_pop_def truthy_def Let_def)
    with snoc False show ?thesis using File by simp
  qed
qed

lemma report_cong:
  "results_success s' = results_success s \<Longrightarrow> results_fail s' = results_fail s \<Longrightarrow>
   report pr cfg s' = report pr cfg s"
  by (simp add: report_def split: option.split)

lemma report_worker_end: "report pr cfg (worker_end pr' cfg' s) = report pr cfg s"
  by (rule report_cong) (simp_all add: worker_end_fields)

lemma chains_run: "chains (run pr cfg s) = Suc (chains s)"
  by (rule run_cases [of s pr cfg]) (simp_all add: chains_def worker_end_fields)

lemma createUploadTask_file: "file (createUploadTask pr cfg f) = f"
  by (simp add: createUploadTask_def Let_def)

lemma inv_pool_run:
  assumes "inv_pool pr cfg files s" "chains s < parallelCount cfg"
  shows "inv_pool pr cfg files (run pr cfg s)"
proof (rule run_cases [of s pr cfg])
  assume "targetFiles s = []" "run pr cfg s = worker_end pr cfg s"
  with assms show ?thesis
    by (auto simp: inv_pool_def chains_def worker_end_fields report_worker_end)
next
  fix xs assume "targetFiles s = xs @ [[]]" "run pr cfg s = worker_end pr cfg (s\<lparr>targetFiles := xs\<rparr>)"
  with assms show ?thesis
    by (auto simp: inv_pool_def chains_def worker_end_fields report_worker_end
        intro: report_cong subset_mset.order_trans [rotated])
next
  fix xs f assume "targetFiles s = xs @ [f]" "f \<noteq> []"
      "run pr cfg s = s\<lparr>targetFiles := xs, stats_uploading := stats_uploading s + 1,
          put_calls := put_calls s @ [createUploadTask pr cfg f],
          inflight := inflight s @ [createUploadTask pr cfg f]\<rparr>"
  with assms show ?thesis
    by (auto simp: inv_pool_def chains_def createUploadTask_file ac_simps intro: report_cong)
qed

lemma inv_files_run:
  assumes "inv_files files s"
  shows "inv_files files (run pr cfg s)"
proof (rule run_cases [of s pr cfg])
  assume "targetFiles s = []" "run pr cfg s = worker_end pr cfg s"
  with assms show ?thesis
    by (auto simp: inv_files_def worker_end_fields)
next
  fix xs assume "targetFiles s = xs @ [[]]" "run pr cfg s = worker_end pr cfg (s\<lparr>targetFiles := xs\<rparr>)"
  with assms show ?thesis
    by (auto simp: inv_files_def worker_end_fields)
next
  fix xs f assume "targetFiles s = xs @ [f]" "f \<noteq> []"
      "run pr cfg s = s\<lparr>targetFiles := xs, stats_uploading := stats_uploading s + 1,
          put_calls := put_calls s @ [createUploadTask pr cfg f],
          inflight := inflight s @ [createUploadTask pr cfg f]\<rparr>"
  with assms show ?thesis
    by (auto simp: inv_files_def createUploadTask_file ac_simps)
qed

lemma putFile_callback_ok:
  "put_ok reply \<Longrightarrow> putFile_callback f k reply = Inr \<lparr> file = f, key = k \<rparr>"
  by (cases reply) (simp_all add: put_ok_def putFile_callback_def)

lemma putFile_callback_error:
  "\<not> put_ok reply \<Longrightarrow>
   putFile_callback f (upload_key pr cfg f) reply = Inl (fail_of pr cfg (f, reply))"
  by (cases reply)
     (simp_all add: put_ok_def putFile_callback_def fail_of_def truthy_def split: option.split)

lemma settle_fields:
  "targetFiles (settle c reply s) = targetFiles s"
  "ended (settle c reply s) = ended s"
  "stats_total (settle c reply s) = stats_total s"
  "stats_uploading (settle c reply s) = stats_uploading s - 1"
  "put_calls (settle c reply s) = put_calls s"
  "inflight (settle c reply s) = inflight s"
  "pending_runs (settle c reply s) = pending_runs s"
  "resolved (settle c reply s) = resolved s"
  "written (settle c reply s) = written s"
  by (simp_all add: settle_def on_fulfilled_def on_rejected_def split: sum.split)

lemma settle_ok:
  assumes "put_ok reply"
  shows "results_success (settle c reply s) =
           results_success s @ [\<lparr> file = file c, key = key c, skipped = False \<rparr>]"
    and "results_fail (settle c reply s) = results_fail s"
    and "stats_success (settle c reply s) = stats_success s + 1"
    and "stats_fail (settle c reply s) = stats_fail s"
  using putFile_callback_ok [OF assms, of "file c" "key c"]
  by (simp_all add: settle_def on_fulfilled_def)

lemma settle_error:
  assumes "\<not> put_ok reply" "key c = upload_key pr cfg (file c)"
  shows "results_fail (settle c reply s) = results_fail s @ [fail_of pr cfg (file c, reply)]"
    and "results_success (settle c reply s) = results_success s"
    and "stats_fail (settle c reply s) = stats_fail s + 1"
    and "stats_success (settle c reply s) = stats_success s"
  using putFile_callback_error [OF assms(1), of "file c" pr cfg] assms(2)
  by (simp_all add: settle_def on_rejected_def fail_of_def)

lemma createUploadTask_key: "key (createUploadTask pr cfg f) = upload_key pr cfg f"
  by (simp add: createUploadTask_def Let_def)

lemma find_SomeD: "find P xs = Some c \<Longrightarrow> c \<in> set xs \<and> P c"
  by (induction xs) (auto split: if_splits)

lemma mset_map_remove1:
  "c \<in> set xs \<Longrightarrow> add_mset (f c) (mset (map f (remove1 c xs))) = mset (map f xs)"
  by (induction xs) auto

lemma step_Settle_D:
  assumes "step pr cfg s (Settle f reply) = Some s'"
  obtains c where "c \<in> set (inflight s)" "file c = f"
    "s' = (settle c reply (s\<lparr>inflight := remove1 c (inflight s)\<rparr>))\<lparr>pending_runs := pending_runs s + 1\<rparr>"
proof -
  from assms obtain c where c: "find (\<lambda>c. file c = f) (inflight s) = Some c"
    by (auto split: option.splits)
  with assms have "s' = (settle c reply (s\<lparr>inflight := remove1 c (inflight s)\<rparr>))\<lparr>pending_runs := pending_runs s + 1\<rparr>"
    by simp
  with find_SomeD [OF c] show ?thesis using that by blast
qed

lemma step_Resume_D:
  assumes "step pr cfg s Resume = Some s'"
  shows "0 < pending_runs s" "s' = run pr cfg (s\<lparr>pending_runs := pending_runs s - 1\<rparr>)"
  using assms by (auto split: if_splits)

lemma inv_pool_pending:
  "inv_pool pr cfg files s \<Longrightarrow> 0 < pending_runs s \<Longrightarrow>
   inv_pool pr cfg files (s\<lparr>pending_runs := pending_runs s - 1\<rparr>)
   \<and> chains (s\<lparr>pending_runs := pending_runs s - 1\<rparr>) < parallelCount cfg"
  by (auto simp: inv_pool_def chains_def intro: report_cong)

lemma inv_pool_Settle:
  assumes inv: "inv_pool pr cfg files s" and st: "step pr cfg s (Settle f reply) = Some s'"
  shows "inv_pool pr cfg files s' \<and> chains s' = chains s"
proof -
  from st obtain c where c: "c \<in> set (inflight s)" "file c = f"
    and s': "s' = (settle c reply (s\<lparr>inflight := remove1 c (inflight s)\<rparr>))\<lparr>pending_runs := pending_runs s + 1\<rparr>"
    by (rule step_Settle_D)
  from c(1) obtain n where len: "length (inflight s) = Suc n"
    by (cases "inflight s") auto
  from c(1) len have lr: "length (remove1 c (inflight s)) = n"
    by (simp add: length_remove1)
  from inv len have nres: "\<not> resolved s" by (auto simp: inv_pool_def chains_def)
  from inv c(1) have kc: "key c = upload_key pr cfg (file c)"
    by (metis createUploadTask_key inv_pool_def)
  have ch: "chains s' = chains s"
    using len lr by (simp add: s' chains_def settle_fields)
  have ms: "add_mset (file c) (mset (map file (remove1 c (inflight s)))) = mset (map file (inflight s))"
    using c(1) by (rule mset_map_remove1)
  have sub: "set (remove1 c (inflight s)) \<subseteq> set (inflight s)" by (rule set_remove1_subset)
  show ?thesis
  proof (cases "put_ok reply")
    case True
    have "inv_pool pr cfg files s'"
      using inv nres len lr ms [symmetric] sub
      by (auto simp: inv_pool_def s' settle_fields settle_ok [OF True] chains_def)
    with ch show ?thesis by simp
  next
    case False
    have "inv_pool pr cfg files s'"
      using inv nres len lr ms [symmetric] sub
      by (auto simp: inv_pool_def s' settle_fields settle_error [OF False kc] chains_def fail_of_def)
    with ch show ?thesis by simp
  qed
qed

lemma inv_pool_step:
  assumes "inv_pool pr cfg files s" "step pr cfg s ev = Some s'"
  shows "inv_pool pr cfg files s' \<and> chains s' = chains s"
proof (cases ev)
  case (Settle f reply)
  with assms show ?thesis using inv_pool_Settle by blast
next
  case Resume
  with assms have p: "0 < pending_runs s" and s': "s' = run pr cfg (s\<lparr>pending_runs := pending_runs s - 1\<rparr>)"
    using step_Resume_D by blast+
  from inv_pool_pending [OF assms(1) p] inv_pool_run
  have "inv_pool pr cfg files s'" unfolding s' by blast
  moreover have "chains s' = chains s" unfolding s' chains_run using p by (simp add: chains_def)
  ultimately show ?thesis by simp
qed

lemma inv_files_step:
  assumes "inv_files files s" "step pr cfg s ev = Some s'"
  shows "inv_files files s'"
proof (cases ev)
  case (Settle f reply)
  with assms(2) have "step pr cfg s (Settle f reply) = Some s'" by simp
  then obtain c where
    "s' = (settle c reply (s\<lparr>inflight := remove1 c (inflight s)\<rparr>))\<lparr>pending_runs := pending_runs s + 1\<rparr>"
    by (rule step_Settle_D)
  with assms(1) show ?thesis by (simp add: inv_files_def settle_fields)
next
  case Resume
  with assms(2) have s': "s' = run pr cfg (s\<lparr>pending_runs := pending_runs s - 1\<rparr>)"
    using step_Resume_D by blast
  from assms(1) have "inv_files files (s\<lparr>pending_runs := pending_runs s - 1\<rparr>)"
    by (simp add: inv_files_def)
  then show ?thesis unfolding s' by (rule inv_files_run)
qed

lemma mu_run: "mu (run pr cfg s) \<le> mu s"
  by (rule run_cases [of s pr cfg]) (simp_all add: mu_def worker_end_fields)

lemma mu_step:
  assumes "step pr cfg s ev = Some s'"
  shows "mu s' < mu s"
proof (cases ev)
  case (Settle f reply)
  with assms have "step pr cfg s (Settle f reply) = Some s'" by simp
  then obtain c where c: "c \<in> set (inflight s)"
    and s': "s' = (settle c reply (s\<lparr>inflight := remove1 c (inflight s)\<rparr>))\<lparr>pending_runs := pending_runs s + 1\<rparr>"
    by (rule step_Settle_D)
  from c obtain n where len: "length (inflight s) = Suc n"
    by (cases "inflight s") auto
  with c have "length (remove1 c (inflight s)) = n"
    by (simp add: length_remove1)
  with len show ?thesis by (simp add: s' mu_def settle_fields)
next
  case Resume
  with assms have p: "0 < pending_runs s" and s': "s' = run pr cfg (s\<lparr>pending_runs := pending_runs s - 1\<rparr>)"
    using step_Resume_D by blast+
  have "mu s' \<le> mu (s\<lparr>pending_runs := pending_runs s - 1\<rparr>)" unfolding s' by (rule mu_run)
  also have "\<dots> < mu s" using p by (simp add: mu_def)
  finally show ?thesis .
qed

lemma progress:
  assumes "\<not> finished s"
  shows "\<exists>ev s'. step pr cfg s ev = Some s'"
proof (cases "inflight s")
  case Nil
  with assms have "0 < pending_runs s" by (simp add: finished_def)
  then have "step pr cfg s Resume = Some (run pr cfg (s\<lparr>pending_runs := pending_runs s - 1\<rparr>))"
    by simp
  then show ?thesis by blast
next
  case (Cons c cs)
  then have "step pr cfg s (Settle (file c) (PutInfo 200 None)) \<noteq> None" by simp
  then show ?thesis by blast
qed

lemma exec_append:
  "exec pr cfg s (es @ es') = (case exec pr cfg s es of None \<Rightarrow> None | Some s' \<Rightarrow> exec pr cfg s' es')"
  by (induction es arbitrary: s) (auto split: option.split)

lemma completes: "\<exists>evs s'. exec pr cfg s evs = Some s' \<and> finished s'"
proof (induction "mu s" arbitrary: s rule: less_induct)
  case less
  show ?case
  proof (cases "finished s")
    case True
    then have "exec pr cfg s [] = Some s \<and> finished s" by simp
    then show ?thesis by blast
  next
    case False
    then obtain ev s1 where st: "step pr cfg s ev = Some s1" using progress by blast
    then have "mu s1 < mu s" by (rule mu_step)
    then obtain evs s' where "exec pr cfg s1 evs = Some s'" "finished s'"
      using less by blast
    with st have "exec pr cfg s (ev # evs) = Some s' \<and> finished s'" by simp
    then show ?thesis by blast
  qed
qed

lemma exec_length:
  "exec pr cfg s evs = Some s' \<Longrightarrow> length evs + mu s' \<le> mu s"
proof (induction evs arbitrary: s)
  case Nil
  then show ?case by simp
next
  case (Cons e es)
  then obtain s1 where st: "step pr cfg s e = Some s1" and ex: "exec pr cfg s1 es = Some s'"
    by (auto split: option.splits)
  from Cons.IH [OF ex] mu_step [OF st] show ?case by simp
qed

lemma inv_pool_exec:
  "inv_pool pr cfg files s \<Longrightarrow> exec pr cfg s evs = Some s' \<Longrightarrow>
   inv_pool pr cfg files s' \<and> chains s' = chains s"
proof (induction evs arbitrary: s)
  case Nil
  then show ?case by simp
next
  case (Cons e es)
  then obtain s1 where st: "step pr cfg s e = Some s1" and ex: "exec pr cfg s1 es = Some s'"
    by (auto split: option.splits)
  from inv_pool_step [OF Cons.prems(1) st] Cons.IH [OF _ ex] show ?case by simp
qed

lemma inv_files_exec:
  "inv_files files s \<Longrightarrow> exec pr cfg s evs = Some s' \<Longrightarrow> inv_files files s'"
proof (induction evs arbitrary: s)
  case Nil
  then show ?case by simp
next
  case (Cons e es)
  then obtain s1 where st: "step pr cfg s e = Some s1" and ex: "exec pr cfg s1 es = Some s'"
    by (auto split: option.splits)
  from inv_files_step [OF Cons.prems(1) st] Cons.IH [OF _ ex] show ?case by simp
qed

lemma run_results:
  "results_success (run pr cfg s) = results_success s"
  "results_fail (run pr cfg s) = results_fail s"
  by (rule run_cases [of s pr cfg]; simp add: worker_end_fields)+

lemma step_results:
  assumes "inv_pool pr cfg files s" "step pr cfg s ev = Some s'"
  shows "results_fail s' = results_fail s @ map (fail_of pr cfg) (filter (\<lambda>fr. \<not> put_ok (snd fr)) (settles [ev]))
       \<and> results_success s' = results_success s @ map (success_of pr cfg) (filter (\<lambda>fr. put_ok (snd fr)) (settles [ev]))"
proof (cases ev)
  case (Settle f reply)
  with assms(2) have "step pr cfg s (Settle f reply) = Some s'" by simp
  then obtain c where c: "c \<in> set (inflight s)" "file c = f"
    and s': "s' = (settle c reply (s\<lparr>inflight := remove1 c (inflight s)\<rparr>))\<lparr>pending_runs := pending_runs s + 1\<rparr>"
    by (rule step_Settle_D)
  from assms(1) c(1) have kc: "key c = upload_key pr cfg (file c)"
    by (metis createUploadTask_key inv_pool_def)
  show ?thesis
  proof (cases "put_ok reply")
    case True
    then show ?thesis using c(2) kc
      by (simp add: Settle s' settle_ok [OF True] success_of_def)
  next
    case False
    then show ?thesis using c(2)
      by (simp add: Settle s' settle_error [OF False kc])
  qed
next
  case Resume
  with assms(2) have "s' = run pr cfg (s\<lparr>pending_runs := pending_runs s - 1\<rparr>)"
    using step_Resume_D by blast
  then show ?thesis by (simp add: Resume run_results)
qed

lemma settles_Cons: "settles (e # es) = settles [e] @ settles es"
  by (cases e) simp_all

lemma exec_results:
  "inv_pool pr cfg files s \<Longrightarrow> exec pr cfg s evs = Some s' \<Longrightarrow>
   results_fail s' = results_fail s @ map (fail_of pr cfg) (filter (\<lambda>fr. \<not> put_ok (snd fr)) (settles evs))
   \<and> results_success s' = results_success s @ map (success_of pr cfg) (filter (\<lambda>fr. put_ok (snd fr)) (settles evs))"
proof (induction evs arbitrary: s)
  case Nil
  then show ?case by simp
next
  case (Cons e es)
  then obtain s1 where st: "step pr cfg s e = Some s1" and ex: "exec pr cfg s1 es = Some s'"
    by (auto split: option.splits)
  from inv_pool_step [OF Cons.prems(1) st] have i1: "inv_pool pr cfg files s1" by simp
  from step_results [OF Cons.prems(1) st] Cons.IH [OF i1 ex]
  show ?case by (simp add: settles_Cons [of e es])
qed

lemma inv_pool_init: "inv_pool pr cfg files (init_state files)"
  by (auto simp: inv_pool_def init_state_def chains_def)

lemma inv_files_init: "[] \<notin> set files \<Longrightarrow> inv_files files (init_state files)"
  by (simp add: inv_files_def init_state_def)

lemma start_loop_inv:
  "inv_pool pr cfg files s \<Longrightarrow> chains s + k \<le> parallelCount cfg \<Longrightarrow>
   inv_pool pr cfg files (start_loop pr cfg k s) \<and> chains (start_loop pr cfg k s) = chains s + k"
proof (induction k arbitrary: s)
  case 0
  then show ?case by simp
next
  case (Suc k)
  from Suc.prems have "inv_pool pr cfg files (run pr cfg s)"
    by (intro inv_pool_run) simp_all
  moreover from Suc.prems have "chains (run pr cfg s) + k \<le> parallelCount cfg"
    by (simp add: chains_run)
  ultimately show ?case using Suc.IH [of "run pr cfg s"] by (simp add: chains_run)
qed

lemma start_loop_files: "inv_files files s \<Longrightarrow> inv_files files (start_loop pr cfg k s)"
  by (induction k arbitrary: s) (simp_all add: inv_files_run)

lemma start_loop_mu: "mu (start_loop pr cfg k s) \<le> mu s"
proof (induction k arbitrary: s)
  case 0
  then show ?case by simp
next
  case (Suc k)
  have "mu (start_loop pr cfg k (run pr cfg s)) \<le> mu (run pr cfg s)" by (rule Suc.IH)
  also have "\<dots> \<le> mu s" by (rule mu_run)
  finally show ?case by simp
qed

lemma start_loop_results:
  "results_success (start_loop pr cfg k s) = results_success s
   \<and> results_fail (start_loop pr cfg k s) = results_fail s"
  by (induction k arbitrary: s) (simp_all add: run_results)

lemma inv_pool_start:
  "inv_pool pr cfg files (start pr cfg files) \<and> chains (start pr cfg files) = parallelCount cfg"
  unfolding start_def
  using start_loop_inv [OF inv_pool_init, where k = "parallelCount cfg" and cfg = cfg and pr = pr and files = files]
  by (simp add: chains_def init_state_def)

lemma inv_files_start: "[] \<notin> set files \<Longrightarrow> inv_files files (start pr cfg files)"
  unfolding start_def by (intro start_loop_files inv_files_init)

lemma mu_start: "mu (start pr cfg files) \<le> 2 * length files"
  unfolding start_def
  using start_loop_mu [of pr cfg "parallelCount cfg" "init_state files"]
  by (simp add: mu_def init_state_def)

lemma reach_inv:
  assumes "exec pr cfg (start pr cfg files) evs = Some s"
  shows "inv_pool pr cfg files s" "chains s = parallelCount cfg"
  using inv_pool_exec [OF _ assms, of files] inv_pool_start [of pr cfg files] by simp_all

lemma reach_files:
  assumes "[] \<notin> set files" "exec pr cfg (start pr cfg files) evs = Some s"
  shows "inv_files files s"
  using inv_files_exec [OF inv_files_start [OF assms(1)] assms(2)] .

lemma resolved_finished:
  assumes "inv_pool pr cfg files s" "chains s = parallelCount cfg"
  shows "resolved s = (finished s \<and> 0 < parallelCount cfg)"
  using assms by (auto simp: inv_pool_def chains_def finished_def)

lemma finished_no_step: "finished s \<Longrightarrow> step pr cfg s ev = None"
  by (cases ev) (simp_all add: finished_def)

lemma finished_exec: "finished s \<Longrightarrow> exec pr cfg s evs = Some s' \<Longrightarrow> evs = []"
  by (cases evs) (simp_all add: finished_no_step)

lemma at_completion:
  assumes "inv_pool pr cfg files s" "inv_files files s" "resolved s"
  shows "targetFiles s = []" "inflight s = []" "pending_runs s = 0"
    "mset (map file (put_calls s)) = mset files"
    "mset (map file (results_success s)) + mset (map file (results_fail s)) = mset files"
    "written s = report pr cfg s"
proof -
  from assms(1,3) have e: "length (ended s) = parallelCount cfg" "0 < parallelCount cfg"
    by (simp_all add: inv_pool_def)
  then have "ended s \<noteq> []" by auto
  with assms(2) show t: "targetFiles s = []" by (simp add: inv_files_def)
  from assms(1) e show i: "inflight s = []" and "pending_runs s = 0"
    by (simp_all add: inv_pool_def chains_def)
  from assms(2) t show p: "mset (map file (put_calls s)) = mset files" by (simp add: inv_files_def)
  from assms(1) i p show "mset (map file (results_success s)) + mset (map file (results_fail s)) = mset files"
    by (simp add: inv_pool_def)
  from assms(1,3) show "written s = report pr cfg s" by (simp add: inv_pool_def)
qed

lemma put_calls_bounded:
  assumes "exec pr cfg (start pr cfg files) evs = Some s"
  shows "mset (map file (put_calls s)) \<subseteq># mset files"
proof -
  from reach_inv(1) [OF assms]
  have "mset (map file (put_calls s)) + mset (targetFiles s) \<subseteq># mset files"
    by (simp add: inv_pool_def)
  then show ?thesis by (rule subset_mset.order_trans [rotated]) simp
qed

lemma workers_exist:
  assumes "exec pr cfg (start pr cfg files) evs = Some s" "settles evs \<noteq> []"
  shows "0 < parallelCount cfg"
proof (rule ccontr)
  assume "\<not> 0 < parallelCount cfg"
  then have "start pr cfg files = init_state files" by (simp add: start_def)
  moreover have "finished (init_state files)" by (simp add: finished_def init_state_def)
  ultimately have "evs = []" using assms(1) finished_exec by metis
  with assms(2) show False by simp
qed

lemma run_completes:
  assumes "0 < parallelCount cfg" "[] \<notin> set files" "exec pr cfg (start pr cfg files) evs = Some s"
  shows "\<exists>evs' s'. exec pr cfg s evs' = Some s' \<and> resolved s'
           \<and> exec pr cfg (start pr cfg files) (evs @ evs') = Some s'"
proof -
  from completes obtain evs' s' where e: "exec pr cfg s evs' = Some s'" and f: "finished s'"
    by blast
  from assms(3) e have ee: "exec pr cfg (start pr cfg files) (evs @ evs') = Some s'"
    by (simp add: exec_append)
  from resolved_finished [OF reach_inv [OF ee]] f assms(1) have "resolved s'" by simp
  with e ee show ?thesis by blast
qed

lemma string_of_int_599: "string_of_int 599 = ''599''"
  by code_simp

lemma demo_run:
  "exec join_resolve demo_cfg (start join_resolve demo_cfg demo_files) demo_schedule = Some demo_final"
  by (simp add: demo_cfg_def demo_files_def demo_schedule_def demo_final_def DEFAULTS_def
      start_def init_state_def run_def js_pop_def truthy_def worker_end_def end_fn_def
      createUploadTask_def upload_key_def resolveBase_def slashes_def backslash_def
      join_resolve_def buildUploadToken_def settle_def putFile_callback_def on_fulfilled_def
      on_rejected_def string_of_int_599 Let_def numeral_2_eq_2)

lemma demo_start:
  "stats_uploading (start join_resolve demo_cfg demo_files) = 2
   \<and> length (inflight (start join_resolve demo_cfg demo_files)) = 2
   \<and> parallelCount demo_cfg = 2"
  by (simp add: demo_cfg_def demo_files_def DEFAULTS_def
      start_def init_state_def run_def js_pop_def truthy_def
      createUploadTask_def Let_def numeral_2_eq_2)

section \<open>The worker pool: results\<close>

text \<open>
  C1.  Whatever the schedule and the replies: no file is handed to \<^verbatim>\<open>putFile\<close> more
  often than it was enumerated.  When the enumerated paths are non-empty strings and the
  promise of \<^verbatim>\<open>start\<close> is resolved, every enumerated file has been uploaded exactly
  once and has exactly one entry in the success and fail lists taken together (for
  distinct paths, no path is in both lists or twice in one), and the success count plus
  the fail count is the number of enumerated files.
\<close>

theorem start_one_outcome_per_file:
  "(exec pr cfg (start pr cfg files) evs = Some s \<longrightarrow>
      mset (map file (put_calls s)) \<subseteq># mset files)
   \<and> ([] \<notin> set files \<and> exec pr cfg (start pr cfg files) evs = Some s \<and> resolved s \<longrightarrow>
        mset (map file (results_success s)) + mset (map file (results_fail s)) = mset files
        \<and> mset (map file (put_calls s)) = mset files
        \<and> length (results_success s) + length (results_fail s) = length files
        \<and> stats_success s + stats_fail s = int (length files)
        \<and> stats_success s = int (length (results_success s))
        \<and> stats_fail s = int (length (results_fail s))
        \<and> stats_total s = int (length files)
        \<and> stats_uploading s = 0
        \<and> (distinct files \<longrightarrow>
              distinct (map file (results_success s) @ map file (results_fail s))))"
proof (intro conjI impI; (elim conjE)?)
  assume "exec pr cfg (start pr cfg files) evs = Some s"
  then show "mset (map file (put_calls s)) \<subseteq># mset files" by (rule put_calls_bounded)
next
  assume ne: "[] \<notin> set files" and ex: "exec pr cfg (start pr cfg files) evs = Some s"
    and res: "resolved s"
  note ip = reach_inv(1) [OF ex]
  note fi = reach_files [OF ne ex]
  note ac = at_completion [OF ip fi res]
  show m: "mset (map file (results_success s)) + mset (map file (results_fail s)) = mset files"
    by (rule ac(5))
  show "mset (map file (put_calls s)) = mset files" by (rule ac(4))
  from arg_cong [OF m, of size]
  show l: "length (results_success s) + length (results_fail s) = length files" by simp
  from ip show ss: "stats_success s = int (length (results_success s))"
    and sf: "stats_fail s = int (length (results_fail s))"
    and "stats_total s = int (length files)"
    by (simp_all add: inv_pool_def)
  from ss sf l show "stats_success s + stats_fail s = int (length files)" by simp
  from ip ac(2) show "stats_uploading s = 0" by (simp add: inv_pool_def)
  assume d: "distinct files"
  from m have "mset (map file (results_success s) @ map file (results_fail s)) = mset files"
    by simp
  with d show "distinct (map file (results_success s) @ map file (results_fail s))"
    by (metis mset_eq_imp_distinct_iff)
qed

text \<open>The three files under the schedule above: the run ends resolved.\<close>

theorem start_one_outcome_per_file_witness:
  "[] \<notin> set demo_files \<and> distinct demo_files
   \<and> exec join_resolve demo_cfg (start join_resolve demo_cfg demo_files) demo_schedule = Some demo_final
   \<and> resolved demo_final
   \<and> mset (map file (put_calls demo_final)) = mset demo_files
   \<and> mset (map file (results_success demo_final)) + mset (map file (results_fail demo_final))
       = mset demo_files
   \<and> stats_success demo_final + stats_fail demo_final = int (length demo_files)
   \<and> distinct (map file (results_success demo_final) @ map file (results_fail demo_final))"
proof -
  have h: "[] \<notin> set demo_files" "distinct demo_files" "resolved demo_final"
    by (simp_all add: demo_files_def demo_final_def)
  from start_one_outcome_per_file [of join_resolve demo_cfg demo_files demo_schedule demo_final]
    demo_run h
  show ?thesis by simp
qed

text \<open>
  C2.  During the loop that starts the workers and in every state that any schedule
  reaches afterwards, \<^verbatim>\<open>stats.uploading\<close> is the number of \<^verbatim>\<open>putFile\<close> calls in
  flight and is at most \<^verbatim>\<open>parallelCount\<close>.
\<close>

theorem start_uploading_bounded:
  "(k \<le> parallelCount cfg \<longrightarrow>
      stats_uploading (start_loop pr cfg k (init_state files)) \<le> int (parallelCount cfg)
      \<and> length (inflight (start_loop pr cfg k (init_state files))) \<le> parallelCount cfg)
   \<and> (exec pr cfg (start pr cfg files) evs = Some s \<longrightarrow>
        stats_uploading s = int (length (inflight s))
        \<and> length (inflight s) \<le> parallelCount cfg
        \<and> stats_uploading s \<le> int (parallelCount cfg))"
proof (intro conjI impI)
  assume k: "k \<le> parallelCount cfg"
  have "chains (init_state files) + k \<le> parallelCount cfg"
    using k by (simp add: chains_def init_state_def)
  from start_loop_inv [OF inv_pool_init this]
  have i: "inv_pool pr cfg files (start_loop pr cfg k (init_state files))" by simp
  then show "length (inflight (start_loop pr cfg k (init_state files))) \<le> parallelCount cfg"
    by (simp add: inv_pool_def chains_def)
  with i show "stats_uploading (start_loop pr cfg k (init_state files)) \<le> int (parallelCount cfg)"
    by (simp add: inv_pool_def)
next
  assume ex: "exec pr cfg (start pr cfg files) evs = Some s"
  note ip = reach_inv(1) [OF ex]
  from ip show u: "stats_uploading s = int (length (inflight s))" by (simp add: inv_pool_def)
  from ip show l: "length (inflight s) \<le> parallelCount cfg" by (simp add: inv_pool_def chains_def)
  from u l show "stats_uploading s \<le> int (parallelCount cfg)" by simp
qed

text \<open>With two workers and three files, two uploads are in flight once the workers are started.\<close>

theorem start_uploading_bounded_witness:
  "(1::nat) \<le> parallelCount demo_cfg
   \<and> stats_uploading (start_loop join_resolve demo_cfg 1 (init_state demo_files)) \<le> 2
   \<and> exec join_resolve demo_cfg (start join_resolve demo_cfg demo_files) [] =
       Some (start join_resolve demo_cfg demo_files)
   \<and> stats_uploading (start join_resolve demo_cfg demo_files) = 2
   \<and> stats_uploading (start join_resolve demo_cfg demo_files) \<le> int (parallelCount demo_cfg)"
  using start_uploading_bounded [of 1 demo_cfg join_resolve demo_files "[]"
      "start join_resolve demo_cfg demo_files"] demo_start
  by simp

text \<open>
  C4.  In a run over non-empty paths in which the upload of \<open>f\<close> met an error reply
  (an error of the remote call, or a status other than 200): the fail list is exactly the
  list of entries \<^verbatim>\<open>{file, key, msg}\<close> of the error replies, in the order they came,
  and has the entry of \<open>f\<close>; the pool is not aborted, since a state with work pending
  always has a next step and a state without has resolved the promise with every file
  accounted for; a continuation to such an end exists; and no run is longer than twice
  the number of files.
\<close>

theorem upload_error_recorded_pool_continues:
  assumes "[] \<notin> set files"
    and "exec pr cfg (start pr cfg files) evs = Some s"
    and "(f, reply) \<in> set (settles evs)"
    and "\<not> put_ok reply"
  shows "results_fail s = map (fail_of pr cfg) (filter (\<lambda>fr. \<not> put_ok (snd fr)) (settles evs))
     \<and> \<lparr> file = f, key = upload_key pr cfg f, msg = msg (fail_of pr cfg (f, reply)) \<rparr> \<in> set (results_fail s)
     \<and> (\<not> finished s \<longrightarrow> (\<exists>ev s'. step pr cfg s ev = Some s'))
     \<and> (finished s \<longrightarrow> resolved s \<and> targetFiles s = []
           \<and> length (results_success s) + length (results_fail s) = length files)
     \<and> (\<exists>evs' s'. exec pr cfg s evs' = Some s' \<and> resolved s' \<and> targetFiles s' = []
           \<and> length (results_success s') + length (results_fail s') = length files
           \<and> fail_of pr cfg (f, reply) \<in> set (results_fail s'))
     \<and> length evs \<le> 2 * length files
     \<and> putFile_callback f (upload_key pr cfg f) reply = Inl (fail_of pr cfg (f, reply))"
proof -
  note ip = reach_inv [OF assms(2)]
  from assms(3) have "settles evs \<noteq> []" by auto
  with assms(2) have w: "0 < parallelCount cfg" by (rule workers_exist)
  have "results_success (start pr cfg files) = [] \<and> results_fail (start pr cfg files) = []"
    unfolding start_def using start_loop_results [of pr cfg "parallelCount cfg" "init_state files"]
    by (simp add: init_state_def)
  with exec_results [OF conjunct1 [OF inv_pool_start] assms(2)]
  have rf: "results_fail s = map (fail_of pr cfg) (filter (\<lambda>fr. \<not> put_ok (snd fr)) (settles evs))"
    by simp
  from assms(3,4) have "(f, reply) \<in> set (filter (\<lambda>fr. \<not> put_ok (snd fr)) (settles evs))" by simp
  then have mem: "fail_of pr cfg (f, reply) \<in> set (results_fail s)"
    unfolding rf by (simp only: set_map) (rule imageI)
  then have mem': "\<lparr> file = f, key = upload_key pr cfg f, msg = msg (fail_of pr cfg (f, reply)) \<rparr> \<in> set (results_fail s)"
    by (simp add: fail_of_def)
  have fin: "resolved s \<and> targetFiles s = []
           \<and> length (results_success s) + length (results_fail s) = length files" if "finished s"
  proof -
    from resolved_finished [OF ip] that w have r: "resolved s" by simp
    note ac = at_completion [OF ip(1) reach_files [OF assms(1,2)] r]
    from arg_cong [OF ac(5), of size] r ac(1) show ?thesis by simp
  qed
  from run_completes [OF w assms(1,2)] obtain evs' s' where
    e: "exec pr cfg s evs' = Some s'" and r: "resolved s'"
    and ee: "exec pr cfg (start pr cfg files) (evs @ evs') = Some s'" by blast
  note ac = at_completion [OF reach_inv(1) [OF ee] reach_files [OF assms(1) ee] r]
  from exec_results [OF ip(1) e] mem have "fail_of pr cfg (f, reply) \<in> set (results_fail s')"
    by simp
  with e r ac(1) arg_cong [OF ac(5), of size]
  have ex: "\<exists>evs' s'. exec pr cfg s evs' = Some s' \<and> resolved s' \<and> targetFiles s' = []
           \<and> length (results_success s') + length (results_fail s') = length files
           \<and> fail_of pr cfg (f, reply) \<in> set (results_fail s')"
    by (intro exI [of _ evs'] exI [of _ s']) simp
  from exec_length [OF assms(2)] mu_start [of pr cfg files]
  have len: "length evs \<le> 2 * length files" by simp
  note cb = putFile_callback_error [OF assms(4), of f pr cfg]
  from rf mem' progress [of s pr cfg] fin ex len cb show ?thesis by blast
qed

text \<open>The schedule above has the error reply 599 for \<open>c.js\<close> and runs to the end.\<close>

theorem upload_error_recorded_pool_continues_witness:
  "[] \<notin> set demo_files
   \<and> exec join_resolve demo_cfg (start join_resolve demo_cfg demo_files) demo_schedule = Some demo_final
   \<and> (''/x/dist/c.js'', PutInfo 599 None) \<in> set (settles demo_schedule)
   \<and> \<not> put_ok (PutInfo 599 None)
   \<and> results_fail demo_final = [\<lparr> file = ''/x/dist/c.js'', key = ''c.js'', msg = ''code: 599'' \<rparr>]
   \<and> results_fail demo_final
       = map (fail_of join_resolve demo_cfg) (filter (\<lambda>fr. \<not> put_ok (snd fr)) (settles demo_schedule))
   \<and> finished demo_final \<and> resolved demo_final
   \<and> length (results_success demo_final) + length (results_fail demo_final) = length demo_files
   \<and> length demo_schedule \<le> 2 * length demo_files"
proof -
  have h: "[] \<notin> set demo_files"
    "(''/x/dist/c.js'', PutInfo 599 None) \<in> set (settles demo_schedule)"
    "\<not> put_ok (PutInfo 599 None)"
    by (simp_all add: demo_files_def demo_schedule_def put_ok_def)
  have f: "finished demo_final"
    "results_fail demo_final = [\<lparr> file = ''/x/dist/c.js'', key = ''c.js'', msg = ''code: 599'' \<rparr>]"
    by (simp_all add: finished_def demo_final_def)
  note t = upload_error_recorded_pool_continues [OF h(1) demo_run h(2,3)]
  from t have a: "results_fail demo_final
       = map (fail_of join_resolve demo_cfg) (filter (\<lambda>fr. \<not> put_ok (snd fr)) (settles demo_schedule))"
    by (rule conjunct1)
  from t f(1) have r: "resolved demo_final"
    and l: "length (results_success demo_final) + length (results_fail demo_final) = length demo_files"
    by blast+
  from t have b: "length demo_schedule \<le> 2 * length demo_files" by blast
  from h demo_run f a r l b show ?thesis by blast
qed

text \<open>
  C8.  Three files, two workers, a truthy \<^verbatim>\<open>output\<close>; the run is complete and the
  only reply that is not a success is the status 599, without an error field, for the
  file \<open>f\<close>.  Then the report that is written is the content of the two lists: two
  success entries and the single fail entry for \<open>f\<close> with its key and the message
  \<open>code: 599\<close>.
\<close>

theorem scenario_three_files_one_599:
  assumes "parallelCount cfg = 2" and "[] \<notin> set [a, b, c]"
    and "output_opt cfg = Some out" and "out \<noteq> []"
    and "exec pr cfg (start pr cfg [a, b, c]) evs = Some s" and "resolved s"
    and "filter (\<lambda>fr. \<not> put_ok (snd fr)) (settles evs) = [(f, PutInfo 599 None)]"
  shows "length (results_success s) = 2
     \<and> results_fail s = [\<lparr> file = f, key = upload_key pr cfg f, msg = ''code: 599'' \<rparr>]
     \<and> f \<in> {a, b, c}
     \<and> written s = [(pr (cwd cfg) out, results_success s, results_fail s)]"
proof -
  note ip = reach_inv(1) [OF assms(5)]
  note ac = at_completion [OF ip reach_files [OF assms(2,5)] assms(6)]
  have "results_success (start pr cfg [a, b, c]) = [] \<and> results_fail (start pr cfg [a, b, c]) = []"
    unfolding start_def using start_loop_results [of pr cfg "parallelCount cfg" "init_state [a, b, c]"]
    by (simp add: init_state_def)
  with exec_results [OF conjunct1 [OF inv_pool_start] assms(5)] assms(7)
  have rf: "results_fail s = [fail_of pr cfg (f, PutInfo 599 None)]" by simp
  have fo: "fail_of pr cfg (f, PutInfo 599 None) = \<lparr> file = f, key = upload_key pr cfg f, msg = ''code: 599'' \<rparr>"
    by (simp add: fail_of_def truthy_def string_of_int_599)
  from arg_cong [OF ac(5), of size] rf have ls: "length (results_success s) = 2" by simp
  from arg_cong [OF ac(5), of set_mset] rf fo have "f \<in> {a, b, c}" by auto
  moreover from ac(6) assms(3,4) have "written s = [(pr (cwd cfg) out, results_success s, results_fail s)]"
    by (simp add: report_def)
  ultimately show ?thesis using ls rf fo by simp
qed

text \<open>The schedule above is such a run, with \<open>c.js\<close> as the file that fails.\<close>

theorem scenario_three_files_one_599_witness:
  "parallelCount demo_cfg = 2
   \<and> [] \<notin> set [''/x/dist/a.js'', ''/x/dist/b.js'', ''/x/dist/c.js'']
   \<and> output_opt demo_cfg = Some ''qiniu-upload.json''
   \<and> exec join_resolve demo_cfg
        (start join_resolve demo_cfg [''/x/dist/a.js'', ''/x/dist/b.js'', ''/x/dist/c.js''])
        demo_schedule = Some demo_final
   \<and> resolved demo_final
   \<and> filter (\<lambda>fr. \<not> put_ok (snd fr)) (settles demo_schedule) = [(''/x/dist/c.js'', PutInfo 599 None)]
   \<and> length (results_success demo_final) = 2
   \<and> results_fail demo_final =
       [\<lparr> file = ''/x/dist/c.js'', key = upload_key join_resolve demo_cfg ''/x/dist/c.js'',
           msg = ''code: 599'' \<rparr>]
   \<and> written demo_final =
       [(join_resolve (cwd demo_cfg) ''qiniu-upload.json'',
         results_success demo_final, results_fail demo_final)]"
proof -
  have h: "parallelCount demo_cfg = 2"
    "[] \<notin> set [''/x/dist/a.js'', ''/x/dist/b.js'', ''/x/dist/c.js'']"
    "output_opt demo_cfg = Some ''qiniu-upload.json''" "''qiniu-upload.json'' \<noteq> []"
    "resolved demo_final"
    "filter (\<lambda>fr. \<not> put_ok (snd fr)) (settles demo_schedule) = [(''/x/dist/c.js'', PutInfo 599 None)]"
    by (simp_all add: demo_cfg_def DEFAULTS_def demo_final_def demo_schedule_def put_ok_def)
  have r: "exec join_resolve demo_cfg
        (start join_resolve demo_cfg [''/x/dist/a.js'', ''/x/dist/b.js'', ''/x/dist/c.js''])
        demo_schedule = Some demo_final"
    using demo_run by (simp add: demo_files_def)
  from scenario_three_files_one_599 [OF h(1,2,3,4) r h(5,6)] h r
  show ?thesis by simp
qed

text \<open>
  C9 fails on the source.  A run without files, debugging on: the report is written to
  \<open>/x/qiniu-upload.json\<close> when the promise is resolved, but when the write fails, the
  callback reads \<^verbatim>\<open>this.log\<close> with \<^verbatim>\<open>this\<close> undefined and raises a TypeError
  instead of logging the failure.
\<close>

theorem report_write_error_raises:
  "resolved (start join_resolve (demo_cfg\<lparr>debug := True\<rparr>) [])
   \<and> written (start join_resolve (demo_cfg\<lparr>debug := True\<rparr>) []) = [(''/x/qiniu-upload.json'', [], [])]
   \<and> writeFile_done (demo_cfg\<lparr>debug := True\<rparr>) (Some ''EACCES: permission denied'')
       = ([], Some TypeError)"
  by (simp add: demo_cfg_def DEFAULTS_def start_def init_state_def run_def js_pop_def truthy_def
      worker_end_def end_fn_def join_resolve_def writeFile_done_def writeFile_callback_def
      call_on_def Let_def numeral_2_eq_2)

section \<open>Listing and deleting: lemmas\<close>

lemma fetch_loop_serves:
  "serves listPrefix cfg limit pfx m ps \<Longrightarrow>
   fetch_loop listPrefix cfg limit pfx m calls files =
     Some (calls @ map (list_call_at cfg limit pfx) (markers_of m ps),
           files @ concat (map items ps), Resolved)"
proof (induction ps arbitrary: m calls files)
  case Nil
  then show ?case by simp
next
  case (Cons p ps)
  from Cons.prems have reply:
    "fetch listPrefix (list_call_at cfg limit pfx m) = Inr p"
    by (simp add: fetch_def)
  show ?case
  proof (cases "marker p")
    case None
    with Cons.prems have "ps = []" by simp
    with None reply show ?thesis
      by (subst fetch_loop.simps) simp
  next
    case (Some m')
    show ?thesis
    proof (cases "m' = []")
      case True
      with Some Cons.prems have "ps = []" by simp
      with Some True reply show ?thesis
        by (subst fetch_loop.simps) simp
    next
      case False
      with Some Cons.prems have "serves listPrefix cfg limit pfx m' ps" by simp
      from Cons.IH [OF this] Some False reply show ?thesis
        by (subst fetch_loop.simps) simp
    qed
  qed
qed

lemma length_markers_of: "length (markers_of m ps) = length ps"
  by (induction ps arbitrary: m) simp_all

lemma fetch_loop_resolved:
  assumes "fetch_loop listPrefix cfg limit pfx m calls files = Some y"
  shows "snd (snd y) = Resolved \<longrightarrow> (\<exists>ps. serves listPrefix cfg limit pfx m ps)"
  using assms
proof (induct rule: fetch_loop.raw_induct [rotated 1, consumes 1])
  case (1 fetch_loop listPrefix cfg limit pfx m calls files y)
  show ?case
  proof
    assume r: "snd (snd y) = Resolved"
    show "\<exists>ps. serves listPrefix cfg limit pfx m ps"
    proof (cases "fetch listPrefix (list_call_at cfg limit pfx m)")
      case (Inl e)
      with 1(2) r show ?thesis by auto
    next
      case (Inr p)
      then have lp: "listPrefix (list_call_at cfg limit pfx m) = ListInfo 200 p"
        by (auto simp: fetch_def split: list_reply.splits if_splits)
      show ?thesis
      proof (cases "marker p")
        case None
        with lp have "serves listPrefix cfg limit pfx m [p]" by simp
        then show ?thesis ..
      next
        case (Some m')
        show ?thesis
        proof (cases "m' = []")
          case True
          with Some lp have "serves listPrefix cfg limit pfx m [p]" by simp
          then show ?thesis ..
        next
          case False
          with Some Inr 1(2) have "fetch_loop listPrefix cfg limit pfx m'
              (calls @ [list_call_at cfg limit pfx m]) (files @ items p) = Some y"
            by simp
          from 1(1) [OF this] r have "\<exists>ps. serves listPrefix cfg limit pfx m' ps" by simp
          then obtain ps where "serves listPrefix cfg limit pfx m' ps" ..
          with Some False lp have "serves listPrefix cfg limit pfx m (p # ps)" by simp
          then show ?thesis ..
        qed
      qed
    qed
  qed
qed

lemma fetchUploadedFiles_resolved:
  assumes "fetch_loop listPrefix cfg limit pfx [] [] [] = Some (calls, files, Resolved)" "pfx \<noteq> []"
  shows "snd (fetchUploadedFiles listPrefix batch cfg \<lparr> arg_limit = Some limit, arg_prefix = Some pfx \<rparr>)
         = Some \<lparr> listed = calls, deletion = Some (deleteFiles cfg batch files) \<rparr>"
  using assms by (simp add: fetchUploadedFiles_def)

lemma del_Nil: "del cfg batch [] = \<lparr> submitted = [], console = [], uncaught = None \<rparr>"
  by (subst del.simps) simp

lemma del_raises:
  "files \<noteq> [] \<Longrightarrow>
   batch_callback ThisUndefined cfg (batch (map (deleteOp (bucket cfg)) (take 100 files))) = (ls, Some e) \<Longrightarrow>
   del cfg batch files =
     \<lparr> submitted = [map (deleteOp (bucket cfg)) (take 100 files)], console = ls, uncaught = Some e \<rparr>"
  by (subst del.simps) (auto simp: min_def)

lemma del_returns:
  "files \<noteq> [] \<Longrightarrow>
   batch_callback ThisUndefined cfg (batch (map (deleteOp (bucket cfg)) (take 100 files))) = (ls, None) \<Longrightarrow>
   del cfg batch files =
     (del cfg batch (drop 100 files))
       \<lparr>submitted := map (deleteOp (bucket cfg)) (take 100 files) # submitted (del cfg batch (drop 100 files)),
        console := ls @ console (del cfg batch (drop 100 files))\<rparr>"
  by (subst del.simps) (auto simp: Let_def min_def)

lemma del_cases:
  obtains (Nil) "files = []"
  | (Raises) ls e where "files \<noteq> []"
      "batch_callback ThisUndefined cfg (batch (map (deleteOp (bucket cfg)) (take 100 files))) = (ls, Some e)"
      "del cfg batch files =
         \<lparr> submitted = [map (deleteOp (bucket cfg)) (take 100 files)], console = ls, uncaught = Some e \<rparr>"
  | (Returns) ls where "files \<noteq> []"
      "batch_callback ThisUndefined cfg (batch (map (deleteOp (bucket cfg)) (take 100 files))) = (ls, None)"
      "del cfg batch files =
        (del cfg batch (drop 100 files))
         \<lparr>submitted := map (deleteOp (bucket cfg)) (take 100 files) # submitted (del cfg batch (drop 100 files)),
          console := ls @ console (del cfg batch (drop 100 files))\<rparr>"
proof (cases "files = []")
  case True
  then show ?thesis by (rule Nil)
next
  case False
  show ?thesis
  proof (cases "batch_callback ThisUndefined cfg (batch (map (deleteOp (bucket cfg)) (take 100 files)))")
    case (Pair ls r)
    show ?thesis
    proof (cases r)
      case None
      with Pair have cb: "batch_callback ThisUndefined cfg
          (batch (map (deleteOp (bucket cfg)) (take 100 files))) = (ls, None)" by simp
      from False cb del_returns [where batch = batch, OF False cb] show ?thesis by (rule Returns)
    next
      case (Some e)
      with Pair have cb: "batch_callback ThisUndefined cfg
          (batch (map (deleteOp (bucket cfg)) (take 100 files))) = (ls, Some e)" by simp
      from False cb del_raises [where batch = batch, OF False cb] show ?thesis by (rule Raises)
    qed
  qed
qed

lemma del_submitted_prefix:
  "prefix (concat (submitted (del cfg batch files))) (map (deleteOp (bucket cfg)) files)"
proof (induction files rule: length_induct)
  case (1 files)
  show ?case
  proof (rule del_cases [where files = files and cfg = cfg and batch = batch])
    assume "files = []"
    then show ?thesis by (simp add: del_Nil)
  next
    fix ls e assume "files \<noteq> []"
      and "batch_callback ThisUndefined cfg (batch (map (deleteOp (bucket cfg)) (take 100 files))) = (ls, Some e)"
      and d: "del cfg batch files =
         \<lparr> submitted = [map (deleteOp (bucket cfg)) (take 100 files)], console = ls, uncaught = Some e \<rparr>"
    have "prefix (take 100 (map (deleteOp (bucket cfg)) files)) (map (deleteOp (bucket cfg)) files)"
      by (rule take_is_prefix)
    then show ?thesis by (simp add: d take_map)
  next
    fix ls assume ne: "files \<noteq> []"
      and "batch_callback ThisUndefined cfg (batch (map (deleteOp (bucket cfg)) (take 100 files))) = (ls, None)"
      and d: "del cfg batch files =
        (del cfg batch (drop 100 files))
         \<lparr>submitted := map (deleteOp (bucket cfg)) (take 100 files) # submitted (del cfg batch (drop 100 files)),
          console := ls @ console (del cfg batch (drop 100 files))\<rparr>"
    from ne have "length (drop 100 files) < length files" by simp
    with 1 have "prefix (concat (submitted (del cfg batch (drop 100 files))))
                   (map (deleteOp (bucket cfg)) (drop 100 files))" by blast
    then have "prefix (map (deleteOp (bucket cfg)) (take 100 files) @ concat (submitted (del cfg batch (drop 100 files))))
                 (map (deleteOp (bucket cfg)) (take 100 files) @ map (deleteOp (bucket cfg)) (drop 100 files))"
      by simp
    moreover have "map (deleteOp (bucket cfg)) (take 100 files) @ map (deleteOp (bucket cfg)) (drop 100 files)
        = map (deleteOp (bucket cfg)) files"
      by (simp add: map_append [symmetric] del: map_append)
    ultimately show ?thesis by (simp add: d)
  qed
qed

lemma del_batch_sizes:
  "(\<forall>b\<in>set (submitted (del cfg batch files)). 0 < length b \<and> length b \<le> 100)
   \<and> (\<forall>b\<in>set (butlast (submitted (del cfg batch files))). length b = 100)"
proof (induction files rule: length_induct)
  case (1 files)
  show ?case
  proof (rule del_cases [where files = files and cfg = cfg and batch = batch])
    assume "files = []"
    then show ?thesis by (simp add: del_Nil)
  next
    fix ls e assume "files \<noteq> []"
      and "batch_callback ThisUndefined cfg (batch (map (deleteOp (bucket cfg)) (take 100 files))) = (ls, Some e)"
      and d: "del cfg batch files =
         \<lparr> submitted = [map (deleteOp (bucket cfg)) (take 100 files)], console = ls, uncaught = Some e \<rparr>"
    then show ?thesis by simp
  next
    fix ls assume ne: "files \<noteq> []"
      and "batch_callback ThisUndefined cfg (batch (map (deleteOp (bucket cfg)) (take 100 files))) = (ls, None)"
      and d: "del cfg batch files =
        (del cfg batch (drop 100 files))
         \<lparr>submitted := map (deleteOp (bucket cfg)) (take 100 files) # submitted (del cfg batch (drop 100 files)),
          console := ls @ console (del cfg batch (drop 100 files))\<rparr>"
    from ne have "length (drop 100 files) < length files" by simp
    with 1 have ih: "(\<forall>b\<in>set (submitted (del cfg batch (drop 100 files))). 0 < length b \<and> length b \<le> 100)
      \<and> (\<forall>b\<in>set (butlast (submitted (del cfg batch (drop 100 files)))). length b = 100)"
      by blast
    have full: "length (take 100 files) = 100" if "submitted (del cfg batch (drop 100 files)) \<noteq> []"
    proof -
      from that have "drop 100 files \<noteq> []" by (auto simp: del_Nil)
      then show ?thesis by simp
    qed
    from ne ih full show ?thesis by (auto simp: d)
  qed
qed

lemma del_all_submitted:
  assumes "\<And>ops. returns (batch_callback ThisUndefined cfg (batch ops))"
  shows "concat (submitted (del cfg batch files)) = map (deleteOp (bucket cfg)) files
         \<and> uncaught (del cfg batch files) = None"
proof (induction files rule: length_induct)
  case (1 files)
  show ?case
  proof (rule del_cases [where files = files and cfg = cfg and batch = batch])
    assume "files = []"
    then show ?thesis by (simp add: del_Nil)
  next
    fix ls assume ne: "files \<noteq> []"
      and "batch_callback ThisUndefined cfg (batch (map (deleteOp (bucket cfg)) (take 100 files))) = (ls, None)"
      and d: "del cfg batch files =
        (del cfg batch (drop 100 files))
         \<lparr>submitted := map (deleteOp (bucket cfg)) (take 100 files) # submitted (del cfg batch (drop 100 files)),
          console := ls @ console (del cfg batch (drop 100 files))\<rparr>"
    from ne have "length (drop 100 files) < length files" by simp
    with 1 have "concat (submitted (del cfg batch (drop 100 files))) = map (deleteOp (bucket cfg)) (drop 100 files)
         \<and> uncaught (del cfg batch (drop 100 files)) = None" by blast
    moreover have "map (deleteOp (bucket cfg)) (take 100 files) @ map (deleteOp (bucket cfg)) (drop 100 files)
        = map (deleteOp (bucket cfg)) files"
      by (simp add: map_append [symmetric] del: map_append)
    ultimately show ?thesis by (simp add: d)
  next
    fix ls e assume "batch_callback ThisUndefined cfg (batch (map (deleteOp (bucket cfg)) (take 100 files))) = (ls, Some e)"
    with assms [of "map (deleteOp (bucket cfg)) (take 100 files)"] have False
      by (simp add: returns_def)
    then show ?thesis ..
  qed
qed

lemma del_sizes:
  assumes "\<And>ops. returns (batch_callback ThisUndefined cfg (batch ops))"
  shows "map length (submitted (del cfg batch files)) = batch_sizes (length files)"
proof (induction files rule: length_induct)
  case (1 files)
  show ?case
  proof (rule del_cases [where files = files and cfg = cfg and batch = batch])
    assume "files = []"
    then show ?thesis by (simp add: del_Nil batch_sizes.simps)
  next
    fix ls assume ne: "files \<noteq> []"
      and "batch_callback ThisUndefined cfg (batch (map (deleteOp (bucket cfg)) (take 100 files))) = (ls, None)"
      and d: "del cfg batch files =
        (del cfg batch (drop 100 files))
         \<lparr>submitted := map (deleteOp (bucket cfg)) (take 100 files) # submitted (del cfg batch (drop 100 files)),
          console := ls @ console (del cfg batch (drop 100 files))\<rparr>"
    from ne have "length (drop 100 files) < length files" by simp
    with 1 have "map length (submitted (del cfg batch (drop 100 files))) = batch_sizes (length (drop 100 files))"
      by blast
    with ne show ?thesis by (simp add: d batch_sizes.simps [of "length files"] min.commute)
  next
    fix ls e assume "batch_callback ThisUndefined cfg (batch (map (deleteOp (bucket cfg)) (take 100 files))) = (ls, Some e)"
    with assms [of "map (deleteOp (bucket cfg)) (take 100 files)"] have False
      by (simp add: returns_def)
    then show ?thesis ..
  qed
qed

lemma batch_sizes_250: "batch_sizes 250 = [100, 100, 50]"
  by code_simp

lemma demo_batch_returns: "returns (batch_callback ThisUndefined demo_cfg (demo_batch ops))"
proof -
  have "snd (log_items (map (\<lambda>_. \<lparr> code = 200, data = NoData \<rparr>) ops)) = None"
    by (induction ops) (auto split: prod.splits)
  then show ?thesis
    by (simp add: returns_def batch_callback_def demo_batch_def parseInt_hundredth_def)
qed

section \<open>Listing and deleting: results\<close>

text \<open>
  C5.  When the remote serves the pages \<open>ps\<close> from the empty marker on, the listing
  issues one call per page, the first with the empty marker and each later one with the
  marker the page before returned, collects the keys of all pages in order, and then
  resolves, after which \<^verbatim>\<open>deleteFiles\<close> is called with those keys.  Conversely the
  listing only resolves when a page with a falsy marker has been served.
\<close>

theorem fetchUploadedFiles_pagination:
  "(serves listPrefix cfg limit pfx [] ps \<longrightarrow>
      fetch_loop listPrefix cfg limit pfx [] [] [] =
        Some (map (list_call_at cfg limit pfx) (markers_of [] ps), concat (map items ps), Resolved)
      \<and> length (markers_of [] ps) = length ps
      \<and> (pfx \<noteq> [] \<longrightarrow>
           snd (fetchUploadedFiles listPrefix batch cfg \<lparr> arg_limit = Some limit, arg_prefix = Some pfx \<rparr>)
           = Some \<lparr> listed = map (list_call_at cfg limit pfx) (markers_of [] ps),
                    deletion = Some (deleteFiles cfg batch (concat (map items ps))) \<rparr>))
   \<and> (fetch_loop listPrefix cfg limit pfx [] [] [] = Some (calls, files, Resolved) \<longrightarrow>
        (\<exists>qs. serves listPrefix cfg limit pfx [] qs))"
proof (intro conjI impI)
  assume s: "serves listPrefix cfg limit pfx [] ps"
  from fetch_loop_serves [OF s, of "[]" "[]"]
  show f: "fetch_loop listPrefix cfg limit pfx [] [] [] =
        Some (map (list_call_at cfg limit pfx) (markers_of [] ps), concat (map items ps), Resolved)"
    by simp
  show "length (markers_of [] ps) = length ps" by (rule length_markers_of)
  assume "pfx \<noteq> []"
  with f show "snd (fetchUploadedFiles listPrefix batch cfg \<lparr> arg_limit = Some limit, arg_prefix = Some pfx \<rparr>)
           = Some \<lparr> listed = map (list_call_at cfg limit pfx) (markers_of [] ps),
                    deletion = Some (deleteFiles cfg batch (concat (map items ps))) \<rparr>"
    by (rule fetchUploadedFiles_resolved)
next
  assume "fetch_loop listPrefix cfg limit pfx [] [] [] = Some (calls, files, Resolved)"
  from fetch_loop_resolved [OF this] show "\<exists>qs. serves listPrefix cfg limit pfx [] qs" by simp
qed

text \<open>Pages with the markers \<open>m1\<close>, \<open>m2\<close> and the empty string: three calls, all keys.\<close>

theorem fetchUploadedFiles_pagination_witness:
  "serves demo_listPrefix demo_cfg 50 ''static/'' [] demo_pages
   \<and> map marker demo_pages = [Some ''m1'', Some ''m2'', Some '''']
   \<and> fetch_loop demo_listPrefix demo_cfg 50 ''static/'' [] [] [] =
       Some ([list_call_at demo_cfg 50 ''static/'' [],
              list_call_at demo_cfg 50 ''static/'' ''m1'',
              list_call_at demo_cfg 50 ''static/'' ''m2''],
             [''static/a.js'', ''static/b.js'', ''static/c.js'', ''static/d.js''], Resolved)
   \<and> length (markers_of [] demo_pages) = 3"
proof -
  have s: "serves demo_listPrefix demo_cfg 50 ''static/'' [] demo_pages"
    by (simp add: demo_pages_def demo_listPrefix_def list_call_at_def)
  from fetchUploadedFiles_pagination [of demo_listPrefix demo_cfg 50 "''static/''" demo_pages] s
  show ?thesis by (simp add: demo_pages_def)
qed

text \<open>
  C10.  \<^verbatim>\<open>fetchUploadedFiles\<close> returns \<^verbatim>\<open>undefined\<close> for every argument, never the
  promise it creates; with a falsy \<^verbatim>\<open>prefix\<close> it returns at once, without any list
  call and without calling \<^verbatim>\<open>deleteFiles\<close>.
\<close>

theorem fetchUploadedFiles_returns_undefined:
  "fst (fetchUploadedFiles listPrefix batch cfg args) = Undefined
   \<and> (\<not> truthy (arg_prefix args) \<longrightarrow>
        snd (fetchUploadedFiles listPrefix batch cfg args) = Some \<lparr> listed = [], deletion = None \<rparr>)"
  by (simp add: fetchUploadedFiles_def truthy_def Let_def split: option.split)

text \<open>An empty and an absent prefix, and a prefix that is listed.\<close>

theorem fetchUploadedFiles_returns_undefined_witness:
  "\<not> truthy (arg_prefix \<lparr> arg_limit = None, arg_prefix = Some [] \<rparr>)
   \<and> fetchUploadedFiles demo_listPrefix demo_batch demo_cfg \<lparr> arg_limit = None, arg_prefix = Some [] \<rparr>
       = (Undefined, Some \<lparr> listed = [], deletion = None \<rparr>)
   \<and> \<not> truthy (arg_prefix \<lparr> arg_limit = None, arg_prefix = None \<rparr>)
   \<and> fetchUploadedFiles demo_listPrefix demo_batch demo_cfg \<lparr> arg_limit = None, arg_prefix = None \<rparr>
       = (Undefined, Some \<lparr> listed = [], deletion = None \<rparr>)
   \<and> fst (fetchUploadedFiles demo_listPrefix demo_batch demo_cfg
            \<lparr> arg_limit = None, arg_prefix = Some ''static/'' \<rparr>) = Undefined"
  using fetchUploadedFiles_returns_undefined [of demo_listPrefix demo_batch demo_cfg
      "\<lparr> arg_limit = None, arg_prefix = Some [] \<rparr>"]
    fetchUploadedFiles_returns_undefined [of demo_listPrefix demo_batch demo_cfg
      "\<lparr> arg_limit = None, arg_prefix = None \<rparr>"]
    fetchUploadedFiles_returns_undefined [of demo_listPrefix demo_batch demo_cfg
      "\<lparr> arg_limit = None, arg_prefix = Some ''static/'' \<rparr>"]
  by (simp add: truthy_def prod_eq_iff)

text \<open>
  The batches that \<^verbatim>\<open>deleteFiles\<close> submits are consecutive pieces of the key list,
  in order, each of 1 to 100 keys and all but the last of exactly 100.  When every
  callback comes back, the batches cover the whole list, and 250 keys go out as three
  batches of 100, 100 and 50.
\<close>

lemma batches_when_callbacks_return:
  "prefix (concat (submitted (deleteFiles cfg batch files))) (map (deleteOp (bucket cfg)) files)
   \<and> (\<forall>b\<in>set (submitted (deleteFiles cfg batch files)). 0 < length b \<and> length b \<le> 100)
   \<and> (\<forall>b\<in>set (butlast (submitted (deleteFiles cfg batch files))). length b = 100)
   \<and> ((\<forall>ops. returns (batch_callback ThisUndefined cfg (batch ops))) \<longrightarrow>
        concat (submitted (deleteFiles cfg batch files)) = map (deleteOp (bucket cfg)) files
        \<and> uncaught (deleteFiles cfg batch files) = None
        \<and> (length files = 250 \<longrightarrow>
             map length (submitted (deleteFiles cfg batch files)) = [100, 100, 50]))"
proof -
  have a: "prefix (concat (submitted (deleteFiles cfg batch files))) (map (deleteOp (bucket cfg)) files)"
    unfolding deleteFiles_def by (rule del_submitted_prefix)
  have b: "(\<forall>b\<in>set (submitted (deleteFiles cfg batch files)). 0 < length b \<and> length b \<le> 100)
      \<and> (\<forall>b\<in>set (butlast (submitted (deleteFiles cfg batch files))). length b = 100)"
    unfolding deleteFiles_def by (rule del_batch_sizes)
  have c: "concat (submitted (deleteFiles cfg batch files)) = map (deleteOp (bucket cfg)) files
        \<and> uncaught (deleteFiles cfg batch files) = None
        \<and> (length files = 250 \<longrightarrow>
             map length (submitted (deleteFiles cfg batch files)) = [100, 100, 50])"
    if r: "\<forall>ops. returns (batch_callback ThisUndefined cfg (batch ops))"
  proof -
    from r have r': "\<And>ops. returns (batch_callback ThisUndefined cfg (batch ops))" by blast
    from del_all_submitted [OF r', where files = files] del_sizes [OF r', where files = files]
      batch_sizes_250
    show ?thesis unfolding deleteFiles_def by simp
  qed
  from a b c show ?thesis by blast
qed

text \<open>A remote that deletes every key, and 250 keys.\<close>

lemma batches_of_demo_keys:
  "(\<forall>ops. returns (batch_callback ThisUndefined demo_cfg (demo_batch ops)))
   \<and> length (demo_keys 250) = 250
   \<and> map length (submitted (deleteFiles demo_cfg demo_batch (demo_keys 250))) = [100, 100, 50]
   \<and> concat (submitted (deleteFiles demo_cfg demo_batch (demo_keys 250)))
       = map (deleteOp (bucket demo_cfg)) (demo_keys 250)
   \<and> uncaught (deleteFiles demo_cfg demo_batch (demo_keys 250)) = None"
  using batches_when_callbacks_return [of demo_cfg demo_batch "demo_keys 250"] demo_batch_returns
  by (simp add: demo_keys_def)

text \<open>
  C6 fails on the source.  250 keys, the default configuration, and a remote whose
  \<^verbatim>\<open>batch\<close> reports an error: the callback raises at \<^verbatim>\<open>this.error\<close> before its
  \<^verbatim>\<open>del()\<close>, so the first batch of 100 keys is the only one submitted, where the
  partition of the list has three batches of 100, 100 and 50.
\<close>

theorem deleteFiles_250_keys_one_batch:
  "length (demo_keys 250) = 250
   \<and> map length (submitted (deleteFiles demo_cfg (\<lambda>ops. BatchErr ''ECONNRESET'') (demo_keys 250)))
       = [100]
   \<and> length (concat (submitted (deleteFiles demo_cfg (\<lambda>ops. BatchErr ''ECONNRESET'') (demo_keys 250))))
       = 100
   \<and> uncaught (deleteFiles demo_cfg (\<lambda>ops. BatchErr ''ECONNRESET'') (demo_keys 250))
       = Some TypeError"
proof -
  have ne: "demo_keys 250 \<noteq> []" by (simp add: demo_keys_def)
  have cb: "batch_callback ThisUndefined demo_cfg
      ((\<lambda>ops. BatchErr ''ECONNRESET'') (map (deleteOp (bucket demo_cfg)) (take 100 (demo_keys 250))))
      = ([], Some TypeError)"
    by (simp add: batch_callback_def call_on_def)
  from del_raises [where batch = "\<lambda>ops. BatchErr ''ECONNRESET''", OF ne cb]
  show ?thesis by (simp add: deleteFiles_def demo_keys_def)
qed

text \<open>
  C7 fails on the source.  250 keys, debugging on, and a remote whose \<^verbatim>\<open>batch\<close>
  reports an error: the callback reads \<^verbatim>\<open>this.error\<close> with \<^verbatim>\<open>this\<close> undefined,
  so it raises before its \<^verbatim>\<open>del()\<close>; one batch of 100 has been submitted, nothing
  is logged, and the other 150 keys are never submitted.
\<close>

theorem deleteFiles_batch_error_stops:
  "map length (submitted (deleteFiles (demo_cfg\<lparr>debug := True\<rparr>) (\<lambda>ops. BatchErr ''ETIMEDOUT'') (demo_keys 250)))
     = [100]
   \<and> console (deleteFiles (demo_cfg\<lparr>debug := True\<rparr>) (\<lambda>ops. BatchErr ''ETIMEDOUT'') (demo_keys 250)) = []
   \<and> uncaught (deleteFiles (demo_cfg\<lparr>debug := True\<rparr>) (\<lambda>ops. BatchErr ''ETIMEDOUT'') (demo_keys 250))
     = Some TypeError"
proof -
  have ne: "demo_keys 250 \<noteq> []" by (simp add: demo_keys_def)
  have cb: "batch_callback ThisUndefined (demo_cfg\<lparr>debug := True\<rparr>)
      ((\<lambda>ops. BatchErr ''ETIMEDOUT'') (map (deleteOp (bucket (demo_cfg\<lparr>debug := True\<rparr>))) (take 100 (demo_keys 250))))
      = ([], Some TypeError)"
    by (simp add: batch_callback_def call_on_def)
  from del_raises [where batch = "\<lambda>ops. BatchErr ''ETIMEDOUT''", OF ne cb]
  show ?thesis by (simp add: deleteFiles_def demo_keys_def)
qed

end
